theory Spec2Isabelle
  imports Main "HOL-Library.Finite_Map"
begin

section \<open>The optimizer stage of the Caide C++ inliner (optimizer.cpp)\<close>

text \<open>
  The file \<^verbatim>\<open>src/optimizer.cpp\<close> drives one run of the inliner's optimizer: it indexes
  the explicitly written declarations, collects the dependency graph of semantic
  declarations, finds the declarations reachable from the roots, lets the visitors schedule
  removals in the rewriter, finalizes the preprocessor callbacks, applies the edits and hands
  the text back to \<^verbatim>\<open>Optimizer::doOptimize\<close>.

  A declaration is a \<^verbatim>\<open>clang::Decl*\<close>. Pointers are compared by address
  (\<^verbatim>\<open>std::set<Decl*>\<close> orders them), so a declaration is modelled by its address.
\<close>

type_synonym decl = nat

text \<open>Key of the declaration index, the result of \<^verbatim>\<open>SourceInfo::makeKey\<close>.\<close>

type_synonym decl_key = nat

subsection \<open>SourceInfo\<close>

text \<open>
  \<^verbatim>\<open>SourceInfo.h\<close> declares the structure shared by the passes. The driver uses four of
  its members: \<^verbatim>\<open>uses\<close> is read with \<^verbatim>\<open>uses[decl]\<close> and iterated,
  \<^verbatim>\<open>declsToKeep\<close> and \<^verbatim>\<open>delayedParsedFunctions\<close> are iterated, and
  \<^verbatim>\<open>nonImplicitDecls\<close> receives \<^verbatim>\<open>emplace(key, decl)\<close>. The containers hold
  finitely many entries; \<^verbatim>\<open>uses\<close> and \<^verbatim>\<open>nonImplicitDecls\<close> are finite maps and the
  two iterated containers are given in iteration order.
\<close>

record SourceInfo =
  uses :: "(decl, decl list) fmap"
  declsToKeep :: "decl list"
  delayedParsedFunctions :: "decl list"
  nonImplicitDecls :: "(decl_key, decl) fmap"

text \<open>
  \<^verbatim>\<open>srcInfo.uses[decl]\<close>: the declarations that \<^verbatim>\<open>decl\<close> uses. For a key that has
  no entry \<^verbatim>\<open>operator[]\<close> yields an empty set.
\<close>

definition uses_at :: "(decl, decl list) fmap \<Rightarrow> decl \<Rightarrow> decl list" where
  "uses_at g d = (case fmlookup g d of None \<Rightarrow> [] | Some ds \<Rightarrow> ds)"

subsection \<open>Step 2 of HandleTranslationUnit: the worklist loop\<close>

text \<open>
  \<^verbatim>\<open>
  std::unordered_set<Decl*> used;
  set<Decl*> queue;
  for (Decl* decl : srcInfo.declsToKeep)
      queue.insert(decl->getCanonicalDecl());
  while (!queue.empty()) {
      Decl* decl = *queue.begin();
      queue.erase(queue.begin());
      if (used.insert(decl).second)
          queue.insert(srcInfo.uses[decl].begin(), srcInfo.uses[decl].end());
  }
  \<close>
  The \<^verbatim>\<open>std::set\<close> named \<^verbatim>\<open>queue\<close> is a list kept ascending and free of
  duplicates: \<^verbatim>\<open>queue.insert\<close> is \<^const>\<open>insort_insert\<close>, \<^verbatim>\<open>*queue.begin()\<close> is
  the head and \<^verbatim>\<open>queue.erase(queue.begin())\<close> leaves the tail. The unordered set
  \<^verbatim>\<open>used\<close> is a set; \<^verbatim>\<open>used.insert(decl).second\<close> is true exactly when
  \<^verbatim>\<open>decl\<close> was not a member. \<^verbatim>\<open>getCanonicalDecl\<close> belongs to the front end and is a
  parameter.

  The fourth argument of the loop is an observation, not program state: it lists, in order,
  the declarations for which the insertion into \<^verbatim>\<open>used\<close> succeeded, that is those whose
  successors were put on the queue.
\<close>

definition succ_nodes :: "(decl, decl list) fmap \<Rightarrow> decl set" where
  "succ_nodes g = (\<Union>ds \<in> fmran' g. set ds)"

lemma finite_succ_nodes: "finite (succ_nodes g)"
  by (simp add: succ_nodes_def fmran'_alt_def)

lemma uses_at_succ_nodes: "set (uses_at g d) \<subseteq> succ_nodes g"
proof (cases "fmlookup g d")
  case None
  then show ?thesis by (simp add: uses_at_def)
next
  case (Some ds)
  then have "ds \<in> fmran' g" by (rule fmran'I)
  with Some show ?thesis by (auto simp: uses_at_def succ_nodes_def)
qed

lemma set_fold_insort_insert: "set (fold insort_insert xs q) = set xs \<union> set q"
  by (induction xs arbitrary: q) (auto simp: set_insort_insert)

function bfs_loop ::
  "(decl, decl list) fmap \<Rightarrow> decl list \<Rightarrow> decl set \<Rightarrow> decl list \<Rightarrow> decl set \<times> decl list" where
  "bfs_loop g [] used expanded = (used, expanded)"
| "bfs_loop g (d # queue) used expanded =
     (if d \<in> used then bfs_loop g queue used expanded
      else bfs_loop g (fold insort_insert (uses_at g d) queue) (insert d used) (expanded @ [d]))"
  by pat_completeness auto
termination
proof (relation "inv_image (less_than <*lex*> less_than)
         (\<lambda>(g, q, U, e). (card ((succ_nodes g \<union> set q) - U), length q))", goal_cases)
  case 1
  show ?case by (intro wf_inv_image wf_lex_prod wf_less_than)
next
  case (2 g d queue used expanded)
  then have "(succ_nodes g \<union> set queue) - used = (succ_nodes g \<union> set (d # queue)) - used"
    by auto
  then show ?case by simp
next
  case (3 g d queue used expanded)
  let ?A = "(succ_nodes g \<union> set (d # queue)) - used"
  let ?B = "(succ_nodes g \<union> set (fold insort_insert (uses_at g d) queue)) - insert d used"
  have fin: "finite ?A" by (simp add: finite_succ_nodes)
  have "?B \<subseteq> ?A" using uses_at_succ_nodes [of g d] by (auto simp: set_fold_insort_insert)
  moreover have "d \<in> ?A" "d \<notin> ?B" using 3 by auto
  ultimately have "?B \<subset> ?A" by blast
  then have "card ?B < card ?A" using fin by (rule psubset_card_mono [rotated])
  then show ?case by simp
qed

definition initial_queue :: "(decl \<Rightarrow> decl) \<Rightarrow> decl list \<Rightarrow> decl list" where
  "initial_queue getCanonicalDecl roots =
     fold (\<lambda>decl queue. insort_insert (getCanonicalDecl decl) queue) roots []"

definition find_used :: "(decl \<Rightarrow> decl) \<Rightarrow> SourceInfo \<Rightarrow> decl set \<times> decl list" where
  "find_used getCanonicalDecl srcInfo =
     bfs_loop (uses srcInfo) (initial_queue getCanonicalDecl (declsToKeep srcInfo)) {} []"

subsection \<open>Reachability in the dependency graph\<close>

definition edges :: "(decl, decl list) fmap \<Rightarrow> (decl \<times> decl) set" where
  "edges g = {(a, b). b \<in> set (uses_at g a)}"

definition reachable_from :: "(decl, decl list) fmap \<Rightarrow> decl set \<Rightarrow> decl set" where
  "reachable_from g R = (edges g)\<^sup>* `` R"

subsection \<open>The loop with a free choice of the next queue element\<close>

text \<open>
  One iteration of the loop, when any member of the queue may be taken next. A state is the
  pair of the queue and the used set.
\<close>

inductive bfs_step ::
  "(decl, decl list) fmap \<Rightarrow> decl set \<times> decl set \<Rightarrow> decl set \<times> decl set \<Rightarrow> bool"
  for g :: "(decl, decl list) fmap" where
  visited: "d \<in> Q \<Longrightarrow> d \<in> U \<Longrightarrow> bfs_step g (Q, U) (Q - {d}, U)"
| expand: "d \<in> Q \<Longrightarrow> d \<notin> U \<Longrightarrow>
     bfs_step g (Q, U) ((Q - {d}) \<union> set (uses_at g d), insert d U)"

definition bfs_inv :: "(decl, decl list) fmap \<Rightarrow> decl set \<Rightarrow> decl set \<times> decl set \<Rightarrow> bool" where
  "bfs_inv g R s =
     (R \<subseteq> fst s \<union> snd s \<and> fst s \<union> snd s \<subseteq> reachable_from g R \<and>
      edges g `` snd s \<subseteq> fst s \<union> snd s)"

subsection \<open>Every run of the loop ends in the reachable set\<close>

lemma bfs_inv_init: "bfs_inv g R (R, {})"
  by (auto simp: bfs_inv_def reachable_from_def)

lemma bfs_inv_step:
  assumes "bfs_step g s s'" and "bfs_inv g R s"
  shows "bfs_inv g R s'"
  using assms
proof (induction rule: bfs_step.induct)
  case (visited d Q U)
  then show ?case by (auto simp: bfs_inv_def)
next
  case (expand d Q U)
  then have d: "d \<in> reachable_from g R" by (auto simp: bfs_inv_def)
  have "set (uses_at g d) \<subseteq> reachable_from g R"
  proof
    fix x assume "x \<in> set (uses_at g d)"
    then have "(d, x) \<in> edges g" by (simp add: edges_def)
    with d show "x \<in> reachable_from g R"
      unfolding reachable_from_def by (auto intro: rtrancl_into_rtrancl)
  qed
  with expand show ?case by (auto simp: bfs_inv_def edges_def)
qed

lemma bfs_inv_steps:
  assumes "(bfs_step g)\<^sup>*\<^sup>* s s'" and "bfs_inv g R s"
  shows "bfs_inv g R s'"
  using assms by (induction rule: rtranclp_induct) (auto intro: bfs_inv_step)

lemma bfs_inv_final:
  assumes "bfs_inv g R ({}, U)"
  shows "U = reachable_from g R"
proof
  show "U \<subseteq> reachable_from g R" using assms by (simp add: bfs_inv_def)
  show "reachable_from g R \<subseteq> U"
  proof
    fix x assume "x \<in> reachable_from g R"
    then obtain r where r: "r \<in> R" and rx: "(r, x) \<in> (edges g)\<^sup>*"
      by (auto simp: reachable_from_def)
    from rx show "x \<in> U"
    proof (induction rule: rtrancl_induct)
      case base
      with r assms show ?case by (auto simp: bfs_inv_def)
    next
      case (step y z)
      then have "z \<in> edges g `` U" by auto
      with assms show ?case by (auto simp: bfs_inv_def)
    qed
  qed
qed

lemma bfs_steps_final:
  assumes "(bfs_step g)\<^sup>*\<^sup>* (R, {}) ({}, U)"
  shows "U = reachable_from g R"
  using bfs_inv_final [OF bfs_inv_steps [OF assms bfs_inv_init]] .

lemma distinct_fold_insort_insert: "distinct q \<Longrightarrow> distinct (fold insort_insert xs q)"
  by (induction xs arbitrary: q) (auto simp: distinct_insort_insert)

lemma sorted_fold_insort_insert: "sorted q \<Longrightarrow> sorted (fold insort_insert xs q)"
  by (induction xs arbitrary: q) (auto simp: sorted_insort_insert)

lemma bfs_loop_steps:
  "distinct q \<Longrightarrow> (bfs_step g)\<^sup>*\<^sup>* (set q, U) ({}, fst (bfs_loop g q U e))"
proof (induction g q U e rule: bfs_loop.induct)
  case (1 g used expanded)
  show ?case by simp
next
  case (2 g d queue used expanded)
  from "2.prems" have dq: "d \<notin> set queue" "distinct queue" by auto
  show ?case
  proof (cases "d \<in> used")
    case True
    have "bfs_step g (set (d # queue), used) (set (d # queue) - {d}, used)"
      using True by (intro bfs_step.visited) auto
    moreover have "set (d # queue) - {d} = set queue" using dq by auto
    ultimately have "bfs_step g (set (d # queue), used) (set queue, used)" by simp
    moreover have "(bfs_step g)\<^sup>*\<^sup>* (set queue, used) ({}, fst (bfs_loop g queue used expanded))"
      using "2.IH"(1) True dq by simp
    ultimately show ?thesis using True by (simp add: converse_rtranclp_into_rtranclp)
  next
    case False
    let ?q = "fold insort_insert (uses_at g d) queue"
    have "bfs_step g (set (d # queue), used)
            ((set (d # queue) - {d}) \<union> set (uses_at g d), insert d used)"
      using False by (intro bfs_step.expand) auto
    moreover have "(set (d # queue) - {d}) \<union> set (uses_at g d) = set ?q"
      using dq by (auto simp: set_fold_insort_insert)
    ultimately have "bfs_step g (set (d # queue), used) (set ?q, insert d used)" by simp
    moreover have "(bfs_step g)\<^sup>*\<^sup>* (set ?q, insert d used)
        ({}, fst (bfs_loop g ?q (insert d used) (expanded @ [d])))"
      using "2.IH"(2) False dq by (simp add: distinct_fold_insort_insert)
    ultimately show ?thesis using False by (simp add: converse_rtranclp_into_rtranclp)
  qed
qed

lemma set_initial_queue: "set (initial_queue c roots) = c ` set roots"
proof -
  have "set (fold (\<lambda>decl queue. insort_insert (c decl) queue) roots q) = c ` set roots \<union> set q" for q
    by (induction roots arbitrary: q) (auto simp: set_insort_insert)
  then show ?thesis by (simp add: initial_queue_def)
qed

lemma distinct_initial_queue: "distinct (initial_queue c roots)"
proof -
  have "distinct q \<Longrightarrow> distinct (fold (\<lambda>decl queue. insort_insert (c decl) queue) roots q)" for q
    by (induction roots arbitrary: q) (auto simp: distinct_insort_insert)
  then show ?thesis by (simp add: initial_queue_def)
qed

text \<open>
  The queue is ascending at every iteration, so its head is its least member, the element
  that \<^verbatim>\<open>*queue.begin()\<close> denotes.
\<close>

lemma sorted_initial_queue: "sorted (initial_queue c roots)"
proof -
  have "sorted q \<Longrightarrow> sorted (fold (\<lambda>decl queue. insort_insert (c decl) queue) roots q)" for q
    by (induction roots arbitrary: q) (auto simp: sorted_insort_insert)
  then show ?thesis by (simp add: initial_queue_def)
qed

lemma sorted_queue_step:
  "sorted (d # queue) \<Longrightarrow> sorted queue \<and> sorted (fold insort_insert (uses_at g d) queue)"
  by (simp add: sorted_fold_insort_insert)

subsection \<open>The used set is the reachable set\<close>

text \<open>
  Claim C1. For every dependency graph \<^verbatim>\<open>srcInfo.uses\<close> and every root set
  \<^verbatim>\<open>srcInfo.declsToKeep\<close>, the set \<^verbatim>\<open>used\<close> that the worklist loop of
  \<^verbatim>\<open>HandleTranslationUnit\<close> computes is exactly the set of declarations reachable,
  along the edges of the graph, from the canonical declarations of the roots.
\<close>

theorem used_equals_reachable:
  "fst (find_used getCanonicalDecl srcInfo) =
     reachable_from (uses srcInfo) (getCanonicalDecl ` set (declsToKeep srcInfo))"
proof -
  let ?q = "initial_queue getCanonicalDecl (declsToKeep srcInfo)"
  have "(bfs_step (uses srcInfo))\<^sup>*\<^sup>* (set ?q, {}) ({}, fst (bfs_loop (uses srcInfo) ?q {} []))"
    by (rule bfs_loop_steps) (rule distinct_initial_queue)
  then show ?thesis
    unfolding find_used_def by (simp add: set_initial_queue bfs_steps_final)
qed


subsection \<open>Termination for every processing order\<close>

definition bfs_measure :: "(decl, decl list) fmap \<Rightarrow> decl set \<times> decl set \<Rightarrow> nat \<times> nat" where
  "bfs_measure g s = (card ((succ_nodes g \<union> fst s) - snd s), card (fst s))"

lemma bfs_step_decreases:
  assumes "bfs_step g s s'" and "finite (fst s)"
  shows "(bfs_measure g s', bfs_measure g s) \<in> less_than <*lex*> less_than"
  using assms
proof (induction rule: bfs_step.induct)
  case (visited d Q U)
  then have "(succ_nodes g \<union> (Q - {d})) - U = (succ_nodes g \<union> Q) - U" by auto
  moreover have "finite Q" using visited by simp
  then have "card (Q - {d}) < card Q"
    using \<open>d \<in> Q\<close> by (rule card_Diff1_less)
  ultimately show ?case by (simp add: bfs_measure_def)
next
  case (expand d Q U)
  let ?A = "(succ_nodes g \<union> Q) - U"
  let ?B = "(succ_nodes g \<union> ((Q - {d}) \<union> set (uses_at g d))) - insert d U"
  have "finite ?A" using expand by (simp add: finite_succ_nodes)
  moreover have "?B \<subset> ?A" using expand uses_at_succ_nodes [of g d] by auto
  ultimately have "card ?B < card ?A" by (rule psubset_card_mono)
  then show ?case by (simp add: bfs_measure_def)
qed

lemma wf_bfs_step: "wf {(s', s). finite (fst s) \<and> bfs_step g s s'}"
proof (rule wf_subset)
  show "wf (inv_image (less_than <*lex*> less_than) (bfs_measure g))"
    by (intro wf_inv_image wf_lex_prod wf_less_than)
  show "{(s', s). finite (fst s) \<and> bfs_step g s s'}
          \<subseteq> inv_image (less_than <*lex*> less_than) (bfs_measure g)"
    using bfs_step_decreases by (auto simp: inv_image_def)
qed

lemma bfs_loop_expanded:
  "distinct e \<Longrightarrow> set e = U \<Longrightarrow>
     distinct (snd (bfs_loop g q U e)) \<and> set (snd (bfs_loop g q U e)) = fst (bfs_loop g q U e)"
  by (induction g q U e rule: bfs_loop.induct) auto

lemma bfs_step_progress: "Q \<noteq> {} \<Longrightarrow> \<exists>s'. bfs_step g (Q, U) s'"
proof -
  assume "Q \<noteq> {}"
  then obtain d where d: "d \<in> Q" by auto
  show ?thesis
  proof (cases "d \<in> U")
    case True
    with d show ?thesis by (blast intro: bfs_step.visited)
  next
    case False
    with d show ?thesis by (blast intro: bfs_step.expand)
  qed
qed

text \<open>
  Claim C2. The worklist loop terminates on every finite dependency graph, cycles and
  self-loops included, and marks each declaration as used at most once: a declaration's
  successors are put on the queue only when it was not yet a member of the used set.

  Stated on the model: no infinite sequence of iterations exists from a state with a finite
  queue, whichever queue element each iteration takes; the run of the loop as written is
  such a sequence, from the initial queue to the empty one; and the declarations whose
  successors were put on the queue form a list without repetition, whose members are exactly
  the used set.
\<close>

theorem bfs_terminates_marks_once:
  "wf {(s', s). finite (fst s) \<and> bfs_step (uses srcInfo) s s'} \<and>
   (bfs_step (uses srcInfo))\<^sup>*\<^sup>*
      (set (initial_queue getCanonicalDecl (declsToKeep srcInfo)), {})
      ({}, fst (find_used getCanonicalDecl srcInfo)) \<and>
   distinct (snd (find_used getCanonicalDecl srcInfo)) \<and>
   set (snd (find_used getCanonicalDecl srcInfo)) = fst (find_used getCanonicalDecl srcInfo)"
proof (intro conjI)
  show "wf {(s', s). finite (fst s) \<and> bfs_step (uses srcInfo) s s'}"
    by (rule wf_bfs_step)
  show "(bfs_step (uses srcInfo))\<^sup>*\<^sup>*
      (set (initial_queue getCanonicalDecl (declsToKeep srcInfo)), {})
      ({}, fst (find_used getCanonicalDecl srcInfo))"
    unfolding find_used_def by (rule bfs_loop_steps) (rule distinct_initial_queue)
  have "distinct (snd (find_used getCanonicalDecl srcInfo)) \<and>
    set (snd (find_used getCanonicalDecl srcInfo)) = fst (find_used getCanonicalDecl srcInfo)"
    unfolding find_used_def by (rule bfs_loop_expanded) simp_all
  then show "distinct (snd (find_used getCanonicalDecl srcInfo))"
    and "set (snd (find_used getCanonicalDecl srcInfo)) = fst (find_used getCanonicalDecl srcInfo)"
    by simp_all
qed

text \<open>
  A graph with a self-loop on 1 and the cycle 1, 2, 3, 1; the edge from 4 to 5 is not
  reachable from the root 1.
\<close>

definition example_info :: SourceInfo where
  "example_info =
     \<lparr>uses = fmap_of_list [(1, [1, 2]), (2, [3]), (3, [1]), (4, [5])],
      declsToKeep = [1], delayedParsedFunctions = [], nonImplicitDecls = fmempty\<rparr>"

lemma find_used_example: "find_used id example_info = ({1, 2, 3}, [1, 2, 3])"
  by (auto simp: find_used_def example_info_def initial_queue_def uses_at_def insort_insert_key_def)

text \<open>
  Claim C3. The used set does not depend on the order in which the worklist is processed:
  whichever member of the queue each iteration takes, a run that empties the queue ends with
  the used set that the loop as written computes.
\<close>

theorem used_set_order_independent:
  assumes "(bfs_step (uses srcInfo))\<^sup>*\<^sup>* (getCanonicalDecl ` set (declsToKeep srcInfo), {}) ({}, U)"
  shows "U = fst (find_used getCanonicalDecl srcInfo)"
proof -
  let ?q = "initial_queue getCanonicalDecl (declsToKeep srcInfo)"
  have "(bfs_step (uses srcInfo))\<^sup>*\<^sup>* (set ?q, {}) ({}, fst (bfs_loop (uses srcInfo) ?q {} []))"
    by (rule bfs_loop_steps) (rule distinct_initial_queue)
  then have "fst (find_used getCanonicalDecl srcInfo) =
      reachable_from (uses srcInfo) (getCanonicalDecl ` set (declsToKeep srcInfo))"
    unfolding find_used_def by (simp add: set_initial_queue bfs_steps_final)
  moreover have "U = reachable_from (uses srcInfo) (getCanonicalDecl ` set (declsToKeep srcInfo))"
    using assms by (rule bfs_steps_final)
  ultimately show ?thesis by simp
qed

text \<open>
  A run on the cycle 2, 3, 4 that takes 4 before 3, where the loop as written takes the
  least address first.
\<close>

definition example_info2 :: SourceInfo where
  "example_info2 =
     \<lparr>uses = fmap_of_list [(2, [3, 4]), (3, [4]), (4, [2])],
      declsToKeep = [2], delayedParsedFunctions = [], nonImplicitDecls = fmempty\<rparr>"

lemma example2_run:
  "(bfs_step (uses example_info2))\<^sup>*\<^sup>* (id ` set (declsToKeep example_info2), {}) ({}, {2, 3, 4})"
proof -
  let ?g = "uses example_info2"
  have u2: "uses_at ?g 2 = [3, 4]" and u3: "uses_at ?g 3 = [4]" and u4: "uses_at ?g 4 = [2]"
    by (simp_all add: example_info2_def uses_at_def)
  have s1: "bfs_step ?g ({2}, {}) ({3, 4}, {2})"
    using bfs_step.expand [of 2 "{2}" "{}" ?g] by (simp add: u2)
  have "({3, 4} - {4::nat}) \<union> set [2] = {2, 3}" by auto
  then have s2: "bfs_step ?g ({3, 4}, {2}) ({2, 3}, {2, 4})"
    using bfs_step.expand [of 4 "{3, 4}" "{2}" ?g] by (simp add: u4 insert_commute)
  have "({2, 3} - {3::nat}) \<union> set [4] = {2, 4}" by auto
  then have s3: "bfs_step ?g ({2, 3}, {2, 4}) ({2, 4}, {2, 3, 4})"
    using bfs_step.expand [of 3 "{2, 3}" "{2, 4}" ?g] by (simp add: u3 insert_commute)
  have "{2, 4} - {4::nat} = {2}" by auto
  then have s4: "bfs_step ?g ({2, 4}, {2, 3, 4}) ({2}, {2, 3, 4})"
    using bfs_step.visited [of 4 "{2, 4}" "{2, 3, 4}" ?g] by simp
  have s5: "bfs_step ?g ({2}, {2, 3, 4}) ({}, {2, 3, 4})"
    using bfs_step.visited [of 2 "{2}" "{2, 3, 4}" ?g] by simp
  have "(bfs_step ?g)\<^sup>*\<^sup>* ({2}, {}) ({}, {2, 3, 4})"
    using s1 s2 s3 s4 s5 by (meson rtranclp.rtrancl_into_rtrancl rtranclp.rtrancl_refl)
  then show ?thesis by (simp add: example_info2_def)
qed

theorem used_set_order_independent_witness:
  "(bfs_step (uses example_info2))\<^sup>*\<^sup>* (id ` set (declsToKeep example_info2), {}) ({}, {2, 3, 4})
   \<and> {2, 3, 4} = fst (find_used id example_info2)"
  using example2_run used_set_order_independent [OF example2_run] by simp


section \<open>The passes around the worklist loop\<close>

subsection \<open>The front end's state\<close>

text \<open>
  The declaration tree that \<^verbatim>\<open>Ctx.getTranslationUnitDecl()\<close> hands to the visitors. A
  node carries its address, the front end's flag for implicit (compiler-generated) code, the
  declarations nested in it, and the instantiations the front end generated from it when it
  is a template.
\<close>

datatype DeclNode =
  DeclNode (declOf: decl) (isImplicit: bool) (decls: "DeclNode list")
    (instantiations: "DeclNode list")

text \<open>A \<^verbatim>\<open>clang::LateParsedTemplate\<close>, opaque to the driver.\<close>

type_synonym lpt = nat

text \<open>
  What the driver reads and writes of \<^verbatim>\<open>clang::Sema\<close> and of the AST context: the
  declaration tree, the flag of \<^verbatim>\<open>sema.getDiagnostics()\<close> and
  \<^verbatim>\<open>sema.LateParsedTemplateMap\<close>, whose values are owning pointers; a key without an
  entry stands for the null pointer that \<^verbatim>\<open>operator[]\<close> returns for it.
\<close>

record Sema =
  translationUnitDecl :: DeclNode
  suppressAllDiagnostics :: bool
  LateParsedTemplateMap :: "(decl, lpt) fmap"

type_synonym FileID = nat

text \<open>
  The source manager: \<^verbatim>\<open>getBufferData(id, &invalid)\<close> yields the bytes of a file, or
  sets \<^verbatim>\<open>invalid\<close> when there is no entry.
\<close>

record SourceManager =
  mainFileID :: FileID
  buffers :: "(FileID, string) fmap"

subsection \<open>Step 0: BuildNonImplicitDeclMap\<close>

text \<open>
  The class derives from \<^verbatim>\<open>clang::RecursiveASTVisitor\<close> and overrides three of its
  options and \<^verbatim>\<open>VisitDecl\<close>:
  \<^verbatim>\<open>
  bool shouldVisitImplicitCode() const { return false; }
  bool shouldVisitTemplateInstantiations() const { return false; }
  bool shouldWalkTypesOfTypeLocs() const { return false; }
  bool VisitDecl(clang::Decl* decl) {
      auto key = SourceInfo::makeKey(decl);
      srcInfo.nonImplicitDecls.emplace(std::move(key), decl);
      return true;
  }
  \<close>
\<close>

record visitor_options =
  shouldVisitImplicitCode :: bool
  shouldVisitTemplateInstantiations :: bool
  shouldWalkTypesOfTypeLocs :: bool

definition BuildNonImplicitDeclMap_options :: visitor_options where
  "BuildNonImplicitDeclMap_options =
     \<lparr>shouldVisitImplicitCode = False, shouldVisitTemplateInstantiations = False,
      shouldWalkTypesOfTypeLocs = False\<rparr>"

text \<open>
  Modelled from the spec: the traversal of \<^verbatim>\<open>RecursiveASTVisitor::TraverseDecl\<close>, which
  is the front end's and not in the sources. The spec has the front end give each node a flag
  distinguishing implicit and instantiated nodes from explicitly written ones, and has a
  traversal that does not visit implicit code or template instantiations not descend into
  such nodes. The function lists the declarations on which \<^verbatim>\<open>VisitDecl\<close> is called, in
  order: an implicit node is skipped with all below it unless implicit code is visited, and
  the instantiations of a node are entered only when instantiations are visited.
\<close>

fun TraverseDecl :: "visitor_options \<Rightarrow> DeclNode \<Rightarrow> decl list" where
  "TraverseDecl opts (DeclNode d implicit nested insts) =
     (if implicit \<and> \<not> shouldVisitImplicitCode opts then []
      else d # concat (map (TraverseDecl opts) nested)
             @ (if shouldVisitTemplateInstantiations opts
                then concat (map (TraverseDecl opts) insts) else []))"

text \<open>
  Modelled from the spec: \<^verbatim>\<open>nonImplicitDecls.emplace\<close> on the container declared in
  \<^verbatim>\<open>SourceInfo.h\<close>, which the spec calls a mapping from a source-location signature to
  the declaration at that location: a key that is present keeps its declaration.
\<close>

definition emplace :: "decl_key \<Rightarrow> decl \<Rightarrow> (decl_key, decl) fmap \<Rightarrow> (decl_key, decl) fmap" where
  "emplace k d m = (case fmlookup m k of None \<Rightarrow> fmupd k d m | Some _ \<Rightarrow> m)"

definition VisitDecl :: "(decl \<Rightarrow> decl_key) \<Rightarrow> decl \<Rightarrow> SourceInfo \<Rightarrow> SourceInfo" where
  "VisitDecl makeKey d srcInfo =
     srcInfo\<lparr>nonImplicitDecls := emplace (makeKey d) d (nonImplicitDecls srcInfo)\<rparr>"

definition BuildNonImplicitDeclMap ::
  "(decl \<Rightarrow> decl_key) \<Rightarrow> DeclNode \<Rightarrow> SourceInfo \<Rightarrow> SourceInfo" where
  "BuildNonImplicitDeclMap makeKey tu srcInfo =
     fold (VisitDecl makeKey) (TraverseDecl BuildNonImplicitDeclMap_options tu) srcInfo"

text \<open>
  The addresses of the declarations that are explicitly written: not implicit, not below an
  implicit node, and not inside an instantiation.
\<close>

fun written_decls :: "DeclNode \<Rightarrow> decl set" where
  "written_decls (DeclNode d implicit nested insts) =
     (if implicit then {} else insert d (\<Union>n \<in> set nested. written_decls n))"

text \<open>The addresses of all nodes of a tree, each node before the nodes below it.\<close>

fun all_decls :: "DeclNode \<Rightarrow> decl list" where
  "all_decls (DeclNode d implicit nested insts) =
     d # concat (map all_decls nested) @ concat (map all_decls insts)"

text \<open>
  The addresses of the declarations that the front end generated: the implicit nodes with
  all below them, and the instantiations with all below them.
\<close>

fun generated_decls :: "DeclNode \<Rightarrow> decl set" where
  "generated_decls (DeclNode d implicit nested insts) =
     (if implicit then insert d (\<Union>n \<in> set nested. set (all_decls n))
      else (\<Union>n \<in> set nested. generated_decls n))
     \<union> (\<Union>n \<in> set insts. set (all_decls n))"

subsection \<open>The collaborators of the driver\<close>

text \<open>
  The passes that the driver calls are defined in other files
  (\<^verbatim>\<open>DependenciesCollector\<close>, \<^verbatim>\<open>OptimizerVisitor\<close>, \<^verbatim>\<open>MergeNamespacesVisitor\<close>,
  \<^verbatim>\<open>RemoveInactivePreprocessorBlocks\<close>, \<^verbatim>\<open>SmartRewriter\<close>) or belong to the front
  end (\<^verbatim>\<open>getCanonicalDecl\<close>, \<^verbatim>\<open>LateTemplateParser\<close>). The driver only fixes what each
  of them receives and when it runs, so they are parameters: any functions of the state they
  are handed. The rewriter's state is the type \<open>'rw\<close>.

  \<^item> \<^verbatim>\<open>DependenciesCollector\<close> is handed \<^verbatim>\<open>sema\<close> and \<^verbatim>\<open>srcInfo\<close> by reference.
  \<^item> \<^verbatim>\<open>LateTemplateParser\<close> is a callback into the parser and may change the front end's
    state in any way.
  \<^item> \<^verbatim>\<open>OptimizerVisitor\<close> (its \<^verbatim>\<open>TraverseDecl\<close> followed by its
    \<^verbatim>\<open>Finalize\<close>) receives the tree, the used set and the rewriter and fills
    \<^verbatim>\<open>removedDecls\<close>.
  \<^item> \<^verbatim>\<open>MergeNamespacesVisitor\<close> receives the tree, \<^verbatim>\<open>removedDecls\<close> and the rewriter.
  \<^item> \<^verbatim>\<open>ppCallbacks.Finalize\<close> and \<^verbatim>\<open>applyChanges\<close> act on the rewriter.
\<close>

record 'rw collaborators =
  getCanonicalDecl :: "decl \<Rightarrow> decl"
  makeKey :: "decl \<Rightarrow> decl_key"
  DependenciesCollector :: "Sema \<Rightarrow> SourceInfo \<Rightarrow> Sema \<times> SourceInfo"
  LateTemplateParser :: "lpt \<Rightarrow> Sema \<Rightarrow> Sema"
  OptimizerVisitor :: "DeclNode \<Rightarrow> decl set \<Rightarrow> 'rw \<Rightarrow> decl set \<times> 'rw"
  MergeNamespacesVisitor :: "DeclNode \<Rightarrow> decl set \<Rightarrow> 'rw \<Rightarrow> 'rw"
  ppCallbacks_Finalize :: "'rw \<Rightarrow> 'rw"
  applyChanges :: "'rw \<Rightarrow> 'rw"
  getRewriteBufferFor :: "'rw \<Rightarrow> FileID \<Rightarrow> string option"

subsection \<open>The state of one HandleTranslationUnit call\<close>

text \<open>
  The calls that the driver makes, in the order in which it makes them. The list
  \<open>events\<close> of the state below is an observation of the run: each statement of the driver
  that calls a pass appends its event after the call has returned.
\<close>

datatype event =
    Ev_BuildNonImplicitDeclMap
  | Ev_DependenciesCollector
  | Ev_setSuppressAllDiagnostics bool
  | Ev_LateTemplateParser decl
  | Ev_BFS
  | Ev_OptimizerVisitor
  | Ev_MergeNamespacesVisitor
  | Ev_ppCallbacks_Finalize
  | Ev_applyChanges
  | Ev_getResult

text \<open>
  The members of \<^verbatim>\<open>OptimizerConsumer\<close> that the call reads or writes, and the two local
  sets \<^verbatim>\<open>used\<close> and \<^verbatim>\<open>removedDecls\<close>.
\<close>

record 'rw consumer =
  sema :: Sema
  srcInfo :: SourceInfo
  smartRewriter :: 'rw
  used :: "decl set"
  removedDecls :: "decl set"
  result :: string
  events :: "event list"

text \<open>
  The one way in which the call can go wrong by itself: \<^verbatim>\<open>*lpt\<close> dereferences the
  pointer stored in \<^verbatim>\<open>LateParsedTemplateMap[f]\<close>, which is null when the map has no
  entry for \<^verbatim>\<open>f\<close>.
\<close>

datatype failure = NullLateParsedTemplate decl

subsection \<open>Step 0 and step 1: indexing, collecting, forcing the delayed parsing\<close>

definition index_declarations :: "'rw collaborators \<Rightarrow> 'rw consumer \<Rightarrow> 'rw consumer" where
  "index_declarations c s =
     s\<lparr>srcInfo := BuildNonImplicitDeclMap (makeKey c) (translationUnitDecl (sema s)) (srcInfo s),
       events := events s @ [Ev_BuildNonImplicitDeclMap]\<rparr>"

definition collect_dependencies :: "'rw collaborators \<Rightarrow> 'rw consumer \<Rightarrow> 'rw consumer" where
  "collect_dependencies c s =
     (case DependenciesCollector c (sema s) (srcInfo s) of
        (sema', srcInfo') \<Rightarrow>
          s\<lparr>sema := sema', srcInfo := srcInfo', events := events s @ [Ev_DependenciesCollector]\<rparr>)"

text \<open>
  \<^verbatim>\<open>
  for (FunctionDecl* f : srcInfo.delayedParsedFunctions) {
      auto& lpt = sema.LateParsedTemplateMap[f];
      sema.LateTemplateParser(sema.OpaqueParser, *lpt);
  }
  \<close>
\<close>

fun late_parse_loop ::
  "(lpt \<Rightarrow> Sema \<Rightarrow> Sema) \<Rightarrow> decl list \<Rightarrow> Sema \<times> event list \<Rightarrow> failure + Sema \<times> event list" where
  "late_parse_loop parser [] st = Inr st"
| "late_parse_loop parser (f # fs) (sm, evs) =
     (case fmlookup (LateParsedTemplateMap sm) f of
        None \<Rightarrow> Inl (NullLateParsedTemplate f)
      | Some t \<Rightarrow> late_parse_loop parser fs (parser t sm, evs @ [Ev_LateTemplateParser f]))"

text \<open>
  \<^verbatim>\<open>
  DiagnosticsEngine& diag = sema.getDiagnostics();
  const bool suppressAll = diag.getSuppressAllDiagnostics();
  diag.setSuppressAllDiagnostics(true);
  for ...
  diag.setSuppressAllDiagnostics(suppressAll);
  \<close>
\<close>

definition force_delayed_parsing ::
  "(lpt \<Rightarrow> Sema \<Rightarrow> Sema) \<Rightarrow> decl list \<Rightarrow> Sema \<times> event list \<Rightarrow> failure + Sema \<times> event list" where
  "force_delayed_parsing parser fs st =
     (let suppressAll = suppressAllDiagnostics (fst st) in
      case late_parse_loop parser fs
             ((fst st)\<lparr>suppressAllDiagnostics := True\<rparr>,
              snd st @ [Ev_setSuppressAllDiagnostics True]) of
        Inl e \<Rightarrow> Inl e
      | Inr (sm, evs) \<Rightarrow>
          Inr (sm\<lparr>suppressAllDiagnostics := suppressAll\<rparr>,
               evs @ [Ev_setSuppressAllDiagnostics suppressAll]))"

definition force_parsing :: "'rw collaborators \<Rightarrow> 'rw consumer \<Rightarrow> failure + 'rw consumer" where
  "force_parsing c s =
     (case force_delayed_parsing (LateTemplateParser c) (delayedParsedFunctions (srcInfo s))
             (sema s, events s) of
        Inl e \<Rightarrow> Inl e
      | Inr (sm, evs) \<Rightarrow> Inr (s\<lparr>sema := sm, events := evs\<rparr>))"

text \<open>
  What one call of the late template parser does to the front end's state: the parser is
  applied to the entry that the map holds for the function at that moment.
\<close>

definition late_parse_step :: "(lpt \<Rightarrow> Sema \<Rightarrow> Sema) \<Rightarrow> decl \<Rightarrow> Sema \<Rightarrow> Sema" where
  "late_parse_step parser f sm =
     (case fmlookup (LateParsedTemplateMap sm) f of None \<Rightarrow> sm | Some t \<Rightarrow> parser t sm)"

subsection \<open>Steps 2 to 5 and the result\<close>

definition find_reachable :: "'rw collaborators \<Rightarrow> 'rw consumer \<Rightarrow> 'rw consumer" where
  "find_reachable c s =
     s\<lparr>used := fst (find_used (getCanonicalDecl c) (srcInfo s)), events := events s @ [Ev_BFS]\<rparr>"

definition remove_declarations :: "'rw collaborators \<Rightarrow> 'rw consumer \<Rightarrow> 'rw consumer" where
  "remove_declarations c s =
     (case OptimizerVisitor c (translationUnitDecl (sema s)) (used s) (smartRewriter s) of
        (removed, rw) \<Rightarrow>
          s\<lparr>smartRewriter := rw, removedDecls := removed,
            events := events s @ [Ev_OptimizerVisitor]\<rparr>)"

definition merge_namespaces :: "'rw collaborators \<Rightarrow> 'rw consumer \<Rightarrow> 'rw consumer" where
  "merge_namespaces c s =
     s\<lparr>smartRewriter :=
          MergeNamespacesVisitor c (translationUnitDecl (sema s)) (removedDecls s) (smartRewriter s),
       events := events s @ [Ev_MergeNamespacesVisitor]\<rparr>"

definition finalize_preprocessor :: "'rw collaborators \<Rightarrow> 'rw consumer \<Rightarrow> 'rw consumer" where
  "finalize_preprocessor c s =
     s\<lparr>smartRewriter := ppCallbacks_Finalize c (smartRewriter s),
       events := events s @ [Ev_ppCallbacks_Finalize]\<rparr>"

definition apply_changes :: "'rw collaborators \<Rightarrow> 'rw consumer \<Rightarrow> 'rw consumer" where
  "apply_changes c s =
     s\<lparr>smartRewriter := applyChanges c (smartRewriter s),
       events := events s @ [Ev_applyChanges]\<rparr>"

text \<open>
  \<^verbatim>\<open>
  string getResult() const {
      if (const RewriteBuffer* rewriteBuf =
              smartRewriter->getRewriteBufferFor(sourceManager.getMainFileID()))
          return string(rewriteBuf->begin(), rewriteBuf->end());
      // No changes
      bool invalid;
      const llvm::StringRef bufferData =
          sourceManager.getBufferData(sourceManager.getMainFileID(), &invalid);
      if (invalid)
          return "Inliner error";
      return string(bufferData.begin(), bufferData.end());
  }
  \<close>
  The branch for older versions of the front end reads the same bytes through
  \<^verbatim>\<open>getBuffer\<close>.
\<close>

definition getResult :: "'rw collaborators \<Rightarrow> SourceManager \<Rightarrow> 'rw \<Rightarrow> string" where
  "getResult c sourceManager rw =
     (case getRewriteBufferFor c rw (mainFileID sourceManager) of
        Some rewriteBuf \<Rightarrow> rewriteBuf
      | None \<Rightarrow>
          (case fmlookup (buffers sourceManager) (mainFileID sourceManager) of
             None \<Rightarrow> ''Inliner error''
           | Some bufferData \<Rightarrow> bufferData))"

definition store_result :: "'rw collaborators \<Rightarrow> SourceManager \<Rightarrow> 'rw consumer \<Rightarrow> 'rw consumer" where
  "store_result c sourceManager s =
     s\<lparr>result := getResult c sourceManager (smartRewriter s),
       events := events s @ [Ev_getResult]\<rparr>"

text \<open>
  The body of \<^verbatim>\<open>HandleTranslationUnit\<close>: the blocks of the method in program order. The
  timers of the method only measure and are left out.
\<close>

definition HandleTranslationUnit ::
  "'rw collaborators \<Rightarrow> SourceManager \<Rightarrow> 'rw consumer \<Rightarrow> failure + 'rw consumer" where
  "HandleTranslationUnit c sourceManager s =
     (let s0 = index_declarations c s;
          s1 = collect_dependencies c s0
      in case force_parsing c s1 of
           Inl e \<Rightarrow> Inl e
         | Inr s1' \<Rightarrow>
             (let s2 = find_reachable c s1';
                  s3 = remove_declarations c s2;
                  s3' = merge_namespaces c s3;
                  s4 = finalize_preprocessor c s3';
                  s5 = apply_changes c s4
              in Inr (store_result c sourceManager s5)))"

section \<open>Optimizer::doOptimize\<close>

subsection \<open>ErrorCollector\<close>

text \<open>The levels of \<^verbatim>\<open>DiagnosticsEngine::Level\<close>, in the order of the enumeration.\<close>

datatype Level = Ignored | Note | Remark | Warning | Error | Fatal

fun level_value :: "Level \<Rightarrow> nat" where
  "level_value Ignored = 0"
| "level_value Note = 1"
| "level_value Remark = 2"
| "level_value Warning = 3"
| "level_value Error = 4"
| "level_value Fatal = 5"

text \<open>
  What \<^verbatim>\<open>HandleDiagnostic\<close> reads of a \<^verbatim>\<open>clang::Diagnostic\<close>: whether it has a
  source manager, the text that \<^verbatim>\<open>getLocation().printToString\<close> gives, and the bytes
  that \<^verbatim>\<open>FormatDiagnostic\<close> writes into the buffer.
\<close>

record Diagnostic =
  hasSourceManager :: bool
  location :: string
  formatted :: string

record ErrorCollector =
  NumWarnings :: nat
  NumErrors :: nat
  errors :: "string list"

text \<open>
  \<^verbatim>\<open>
  void HandleDiagnostic(DiagnosticsEngine::Level DiagLevel, const Diagnostic& Info) override {
      // Default implementation (Warnings/errors count).
      DiagnosticConsumer::HandleDiagnostic(DiagLevel, Info);
      if (DiagLevel >= DiagnosticsEngine::Level::Error) {
          string message;
          if (Info.hasSourceManager()) {
              message = Info.getLocation().printToString(Info.getSourceManager());
              message += ": ";
          }
          llvm::SmallVector<char, 256> buffer;
          Info.FormatDiagnostic(buffer);
          message += string(buffer.data(), buffer.size());
          errors.push_back(std::move(message));
      }
  }
  \<close>
  The default implementation is the front end's: it counts warnings and errors.
\<close>

definition count_diagnostic :: "Level \<Rightarrow> ErrorCollector \<Rightarrow> ErrorCollector" where
  "count_diagnostic DiagLevel ec =
     (if DiagLevel = Warning then ec\<lparr>NumWarnings := NumWarnings ec + 1\<rparr>
      else if level_value Error \<le> level_value DiagLevel then ec\<lparr>NumErrors := NumErrors ec + 1\<rparr>
      else ec)"

definition HandleDiagnostic :: "Level \<Rightarrow> Diagnostic \<Rightarrow> ErrorCollector \<Rightarrow> ErrorCollector" where
  "HandleDiagnostic DiagLevel Info ec =
     (let ec' = count_diagnostic DiagLevel ec in
      if level_value Error \<le> level_value DiagLevel
      then ec'\<lparr>errors := errors ec' @
                 [(if hasSourceManager Info then location Info @ '': '' else []) @ formatted Info]\<rparr>
      else ec')"

definition new_ErrorCollector :: ErrorCollector where
  "new_ErrorCollector = \<lparr>NumWarnings = 0, NumErrors = 0, errors = []\<rparr>"

subsection \<open>The run of the tool and the outcome of doOptimize\<close>

text \<open>
  \<^verbatim>\<open>tool.run(&factory)\<close> is the front end. What \<^verbatim>\<open>doOptimize\<close> observes of it once
  it has returned: the diagnostics that it reported to the consumer, in order, the integer
  that it returned, and the contents of the string \<^verbatim>\<open>result\<close>, which the
  \<^verbatim>\<open>OptimizerConsumer\<close> holds by reference and assigns at the end of
  \<^verbatim>\<open>HandleTranslationUnit\<close>.
\<close>

record ToolRun =
  diagnostics :: "(Level \<times> Diagnostic) list"
  ret :: int
  consumer_result :: string

text \<open>
  \<^verbatim>\<open>std::runtime_error(message.c_str())\<close>: the exception is built from a C string, which
  ends at the first zero byte.
\<close>

definition c_str :: "string \<Rightarrow> string" where
  "c_str s = takeWhile (\<lambda>ch. ch \<noteq> CHR 0x00) s"

datatype exn = runtime_error string

text \<open>
  \<^verbatim>\<open>
  string message = "Inliner failed.";
  if (!errors.getErrors().empty()) {
      message += " The following compilation errors were detected: ";
      for (const auto& error : errors.getErrors()) {
          message += error;
          message.push_back('\n');
      }
  }
  \<close>
\<close>

definition failure_message :: "string list \<Rightarrow> string" where
  "failure_message errs =
     (let message = ''Inliner failed.'' in
      if errs \<noteq> []
      then fold (\<lambda>error message. message @ error @ [CHR 0x0A]) errs
             (message @ '' The following compilation errors were detected: '')
      else message)"

text \<open>
  \<^verbatim>\<open>
  int ret = tool.run(&factory);
  if (ret != 0) {
      ...
      throw std::runtime_error(message.c_str());
  }
  return result;
  \<close>
\<close>

definition collected_errors :: "ToolRun \<Rightarrow> string list" where
  "collected_errors run =
     errors (fold (\<lambda>(DiagLevel, Info). HandleDiagnostic DiagLevel Info) (diagnostics run)
               new_ErrorCollector)"

definition doOptimize :: "ToolRun \<Rightarrow> exn + string" where
  "doOptimize run =
     (if ret run \<noteq> 0
      then Inl (runtime_error (c_str (failure_message (collected_errors run))))
      else Inr (consumer_result run))"

section \<open>Properties of the passes\<close>

subsection \<open>The declaration index\<close>

lemma emplace_lookup:
  "fmlookup (emplace k d m) k' = Some x \<Longrightarrow> x = d \<or> fmlookup m k' = Some x"
  by (auto simp: emplace_def split: option.splits if_splits)

lemma fold_VisitDecl_lookup:
  "fmlookup (nonImplicitDecls (fold (VisitDecl mk) ds si)) k = Some x \<Longrightarrow>
     x \<in> set ds \<or> fmlookup (nonImplicitDecls si) k = Some x"
proof (induction ds arbitrary: si)
  case Nil
  then show ?case by simp
next
  case (Cons d ds)
  from Cons.prems have "fmlookup (nonImplicitDecls (fold (VisitDecl mk) ds (VisitDecl mk d si))) k = Some x"
    by simp
  then have "x \<in> set ds \<or> fmlookup (nonImplicitDecls (VisitDecl mk d si)) k = Some x"
    by (rule Cons.IH)
  then show ?case
    by (auto simp: VisitDecl_def dest: emplace_lookup)
qed

lemma TraverseDecl_written:
  "set (TraverseDecl BuildNonImplicitDeclMap_options n) = written_decls n"
  by (induction n) (auto simp: BuildNonImplicitDeclMap_options_def)

lemma written_subset_all: "written_decls n \<subseteq> set (all_decls n)"
  by (induction n) auto

lemma generated_subset_all: "generated_decls n \<subseteq> set (all_decls n)"
  by (induction n) auto

lemma distinct_concat_map_disjoint:
  "distinct (concat (map f xs)) \<Longrightarrow> x \<in> set xs \<Longrightarrow> y \<in> set xs \<Longrightarrow> x \<noteq> y \<Longrightarrow>
     set (f x) \<inter> set (f y) = {}"
  by (induction xs) auto

lemma distinct_concat_map_each:
  "distinct (concat (map f xs)) \<Longrightarrow> x \<in> set xs \<Longrightarrow> distinct (f x)"
  by (induction xs) auto

lemma written_generated_disjoint:
  "distinct (all_decls n) \<Longrightarrow> written_decls n \<inter> generated_decls n = {}"
proof (induction n)
  case (DeclNode d implicit nested insts)
  show ?case
  proof (cases implicit)
    case True
    then show ?thesis by simp
  next
    case False
    from DeclNode.prems have dn: "distinct (concat (map all_decls nested))"
      and d1: "d \<notin> set (concat (map all_decls nested))"
      and d2: "d \<notin> set (concat (map all_decls insts))"
      and ni: "set (concat (map all_decls nested)) \<inter> set (concat (map all_decls insts)) = {}"
      by auto
    have a: "d \<notin> generated_decls m" if "m \<in> set nested" for m
      using d1 that generated_subset_all [of m] by auto
    have b: "d \<notin> set (all_decls m)" if "m \<in> set insts" for m
      using d2 that by auto
    have c: "written_decls m \<inter> generated_decls m' = {}"
      if "m \<in> set nested" "m' \<in> set nested" for m m'
    proof (cases "m = m'")
      case True
      have "distinct (all_decls m)" using dn that(1) by (rule distinct_concat_map_each)
      with DeclNode.IH(1) [OF that(1)] True show ?thesis by simp
    next
      case False
      have "set (all_decls m) \<inter> set (all_decls m') = {}"
        using dn that False by (rule distinct_concat_map_disjoint)
      with written_subset_all [of m] generated_subset_all [of m'] show ?thesis by blast
    qed
    have e: "written_decls m \<inter> set (all_decls m') = {}"
      if "m \<in> set nested" "m' \<in> set insts" for m m'
    proof -
      have "set (all_decls m) \<inter> set (all_decls m') = {}" using ni that by auto
      with written_subset_all [of m] show ?thesis by blast
    qed
    show ?thesis using False a b c e by (auto simp: disjoint_iff)
  qed
qed

lemma BuildNonImplicitDeclMap_values:
  "fmran' (nonImplicitDecls
             (BuildNonImplicitDeclMap mk tu (si\<lparr>nonImplicitDecls := fmempty\<rparr>)))
     \<subseteq> written_decls tu"
proof
  fix x
  assume "x \<in> fmran' (nonImplicitDecls
           (BuildNonImplicitDeclMap mk tu (si\<lparr>nonImplicitDecls := fmempty\<rparr>)))"
  then obtain k where "fmlookup (nonImplicitDecls
           (BuildNonImplicitDeclMap mk tu (si\<lparr>nonImplicitDecls := fmempty\<rparr>))) k = Some x"
    by (auto simp: fmlookup_ran'_iff)
  then have "x \<in> set (TraverseDecl BuildNonImplicitDeclMap_options tu)"
    unfolding BuildNonImplicitDeclMap_def by (auto dest: fold_VisitDecl_lookup)
  then show "x \<in> written_decls tu" by (simp add: TraverseDecl_written)
qed

text \<open>
  Claim C6. The map built by \<^verbatim>\<open>BuildNonImplicitDeclMap\<close> contains only explicitly
  written declarations: the traversal does not descend into implicit nodes or template
  instantiations, so no implicit or instantiated declaration is recorded in
  \<^verbatim>\<open>srcInfo.nonImplicitDecls\<close>.

  Stated on the model, for a tree whose nodes have different addresses: with the three
  options of the class, \<^verbatim>\<open>VisitDecl\<close> is called on exactly the explicitly written
  declarations of the tree; every declaration stored in the map, which is empty in a new
  consumer, is one of them; and none of the stored declarations is an implicit node, below
  an implicit node, or inside an instantiation.
\<close>

theorem nonImplicitDecls_only_written:
  assumes "distinct (all_decls tu)"
  shows "set (TraverseDecl BuildNonImplicitDeclMap_options tu) = written_decls tu \<and>
         fmran' (nonImplicitDecls
                   (BuildNonImplicitDeclMap mk tu (si\<lparr>nonImplicitDecls := fmempty\<rparr>)))
           \<subseteq> written_decls tu \<and>
         fmran' (nonImplicitDecls
                   (BuildNonImplicitDeclMap mk tu (si\<lparr>nonImplicitDecls := fmempty\<rparr>)))
           \<inter> generated_decls tu = {}"
proof (intro conjI)
  show "set (TraverseDecl BuildNonImplicitDeclMap_options tu) = written_decls tu"
    by (rule TraverseDecl_written)
  show sub: "fmran' (nonImplicitDecls
                   (BuildNonImplicitDeclMap mk tu (si\<lparr>nonImplicitDecls := fmempty\<rparr>)))
           \<subseteq> written_decls tu"
    by (rule BuildNonImplicitDeclMap_values)
  show "fmran' (nonImplicitDecls
                   (BuildNonImplicitDeclMap mk tu (si\<lparr>nonImplicitDecls := fmempty\<rparr>)))
           \<inter> generated_decls tu = {}"
    using sub written_generated_disjoint [OF assms] by blast
qed

text \<open>
  A translation unit with an implicit declaration 4 (and 41 below it), an implicit member 31
  of the template 3, and an instantiation 30 of that template.
\<close>

definition example_tu :: DeclNode where
  "example_tu =
     DeclNode 100 False
       [DeclNode 2 False [] [],
        DeclNode 3 False [DeclNode 31 True [] []] [DeclNode 30 False [] []],
        DeclNode 4 True [DeclNode 41 False [] []] [],
        DeclNode 5 False [] []] []"

lemma TraverseDecl_example:
  "TraverseDecl BuildNonImplicitDeclMap_options example_tu = [100, 2, 3, 5]"
  by (simp add: example_tu_def BuildNonImplicitDeclMap_options_def)

lemma TraverseDecl_example_all:
  "TraverseDecl \<lparr>shouldVisitImplicitCode = True, shouldVisitTemplateInstantiations = True,
      shouldWalkTypesOfTypeLocs = False\<rparr> example_tu = [100, 2, 3, 31, 30, 4, 41, 5]"
  by (simp add: example_tu_def)

lemma generated_decls_example: "generated_decls example_tu = {4, 41, 31, 30}"
  by (auto simp: example_tu_def)

theorem nonImplicitDecls_only_written_witness:
  "distinct (all_decls example_tu) \<and>
   set (TraverseDecl BuildNonImplicitDeclMap_options example_tu) = {100, 2, 3, 5} \<and>
   fmran' (nonImplicitDecls (BuildNonImplicitDeclMap (\<lambda>d. d) example_tu
             (example_info\<lparr>nonImplicitDecls := fmempty\<rparr>))) \<inter> {4, 41, 31, 30} = {}"
proof -
  have d: "distinct (all_decls example_tu)" by (simp add: example_tu_def)
  have "set (TraverseDecl BuildNonImplicitDeclMap_options example_tu) = {100, 2, 3, 5}"
    by (simp add: TraverseDecl_example)
  then show ?thesis
    using d nonImplicitDecls_only_written [OF d, of "\<lambda>d. d" example_info]
    by (simp add: generated_decls_example)
qed

subsection \<open>The forced parsing and the order of the calls\<close>

lemma late_parse_loop_events:
  "late_parse_loop parser fs (sm, evs) = Inr (sm', evs') \<Longrightarrow>
     evs' = evs @ map Ev_LateTemplateParser fs"
proof (induction fs arbitrary: sm evs)
  case Nil
  then show ?case by simp
next
  case (Cons f fs)
  from Cons.prems obtain t where t: "fmlookup (LateParsedTemplateMap sm) f = Some t"
    and rest: "late_parse_loop parser fs (parser t sm, evs @ [Ev_LateTemplateParser f])
                 = Inr (sm', evs')"
    by (auto split: option.splits)
  from Cons.IH [OF rest] show ?case by simp
qed

lemma force_delayed_parsing_Inr:
  assumes "force_delayed_parsing parser fs (sm, evs) = Inr (sm', evs')"
  shows "suppressAllDiagnostics sm' = suppressAllDiagnostics sm"
    and "evs' = evs @ [Ev_setSuppressAllDiagnostics True] @ map Ev_LateTemplateParser fs
               @ [Ev_setSuppressAllDiagnostics (suppressAllDiagnostics sm)]"
  using assms
  by (auto simp: force_delayed_parsing_def Let_def split: sum.splits prod.splits
           dest: late_parse_loop_events)

lemma force_parsing_Inr:
  assumes "force_parsing c s = Inr s'"
  shows "suppressAllDiagnostics (sema s') = suppressAllDiagnostics (sema s)"
    and "events s' = events s @ [Ev_setSuppressAllDiagnostics True]
           @ map Ev_LateTemplateParser (delayedParsedFunctions (srcInfo s))
           @ [Ev_setSuppressAllDiagnostics (suppressAllDiagnostics (sema s))]"
    and "srcInfo s' = srcInfo s" and "smartRewriter s' = smartRewriter s"
  using assms
  by (auto simp: force_parsing_def split: sum.splits prod.splits
           dest: force_delayed_parsing_Inr)

lemma late_parse_loop_returns:
  assumes "\<And>t sm. LateParsedTemplateMap (parser t sm) = LateParsedTemplateMap sm"
    and "set fs \<subseteq> fmdom' (LateParsedTemplateMap sm)"
  shows "\<exists>st'. late_parse_loop parser fs (sm, evs) = Inr st'"
  using assms(2)
proof (induction fs arbitrary: sm evs)
  case Nil
  then show ?case by simp
next
  case (Cons f fs)
  then obtain t where t: "fmlookup (LateParsedTemplateMap sm) f = Some t"
    by (auto simp: fmlookup_dom'_iff)
  have "set fs \<subseteq> fmdom' (LateParsedTemplateMap (parser t sm))"
    using Cons.prems assms(1) by simp
  from Cons.IH [OF this] show ?case using t by simp
qed

lemma late_parse_loop_state:
  "late_parse_loop parser fs (sm, evs) = Inr (sm', evs') \<Longrightarrow>
     sm' = fold (late_parse_step parser) fs sm"
proof (induction fs arbitrary: sm evs)
  case Nil
  then show ?case by simp
next
  case (Cons f fs)
  from Cons.prems obtain t where t: "fmlookup (LateParsedTemplateMap sm) f = Some t"
    and rest: "late_parse_loop parser fs (parser t sm, evs @ [Ev_LateTemplateParser f])
                 = Inr (sm', evs')"
    by (auto split: option.splits)
  from Cons.IH [OF rest] t show ?case by (simp add: late_parse_step_def)
qed

lemma late_parse_loop_entry:
  "late_parse_loop parser (xs @ f # ys) (sm, evs) = Inr st \<Longrightarrow>
     \<exists>t. fmlookup (LateParsedTemplateMap (fold (late_parse_step parser) xs sm)) f = Some t"
proof (induction xs arbitrary: sm evs)
  case Nil
  then show ?case by (auto split: option.splits)
next
  case (Cons x xs)
  from Cons.prems obtain t where t: "fmlookup (LateParsedTemplateMap sm) x = Some t"
    and rest: "late_parse_loop parser (xs @ f # ys)
                 (parser t sm, evs @ [Ev_LateTemplateParser x]) = Inr st"
    by (auto split: option.splits)
  from Cons.IH [OF rest] t show ?case by (simp add: late_parse_step_def)
qed

lemma force_parsing_state:
  assumes "force_parsing c s = Inr s'"
  shows "sema s' =
           (fold (late_parse_step (LateTemplateParser c)) (delayedParsedFunctions (srcInfo s))
              ((sema s)\<lparr>suppressAllDiagnostics := True\<rparr>))
           \<lparr>suppressAllDiagnostics := suppressAllDiagnostics (sema s)\<rparr>"
    and "delayedParsedFunctions (srcInfo s) = xs @ f # ys \<Longrightarrow>
         \<exists>t. fmlookup (LateParsedTemplateMap
                (fold (late_parse_step (LateTemplateParser c)) xs
                   ((sema s)\<lparr>suppressAllDiagnostics := True\<rparr>))) f = Some t"
proof -
  from assms obtain sm evs where l: "late_parse_loop (LateTemplateParser c)
        (delayedParsedFunctions (srcInfo s))
        ((sema s)\<lparr>suppressAllDiagnostics := True\<rparr>,
         events s @ [Ev_setSuppressAllDiagnostics True]) = Inr (sm, evs)"
    and s': "sema s' = sm\<lparr>suppressAllDiagnostics := suppressAllDiagnostics (sema s)\<rparr>"
    by (auto simp: force_parsing_def force_delayed_parsing_def Let_def
             split: sum.splits prod.splits)
  show "sema s' =
           (fold (late_parse_step (LateTemplateParser c)) (delayedParsedFunctions (srcInfo s))
              ((sema s)\<lparr>suppressAllDiagnostics := True\<rparr>))
           \<lparr>suppressAllDiagnostics := suppressAllDiagnostics (sema s)\<rparr>"
    using late_parse_loop_state [OF l] s' by simp
  show "\<exists>t. fmlookup (LateParsedTemplateMap
                (fold (late_parse_step (LateTemplateParser c)) xs
                   ((sema s)\<lparr>suppressAllDiagnostics := True\<rparr>))) f = Some t"
    if "delayedParsedFunctions (srcInfo s) = xs @ f # ys"
    using l late_parse_loop_entry unfolding that by blast
qed

lemma HandleTranslationUnit_events:
  assumes "HandleTranslationUnit c sourceManager s = Inr s'"
  shows "events s' = events s
           @ [Ev_BuildNonImplicitDeclMap, Ev_DependenciesCollector,
              Ev_setSuppressAllDiagnostics True]
           @ map Ev_LateTemplateParser (delayedParsedFunctions (srcInfo s'))
           @ [Ev_setSuppressAllDiagnostics
                (suppressAllDiagnostics (sema (collect_dependencies c (index_declarations c s)))),
              Ev_BFS, Ev_OptimizerVisitor, Ev_MergeNamespacesVisitor,
              Ev_ppCallbacks_Finalize, Ev_applyChanges, Ev_getResult]"
    and "srcInfo s' = srcInfo (collect_dependencies c (index_declarations c s))"
proof -
  let ?s1 = "collect_dependencies c (index_declarations c s)"
  from assms obtain s1' where f: "force_parsing c ?s1 = Inr s1'"
    and s': "s' = store_result c sourceManager (apply_changes c (finalize_preprocessor c
               (merge_namespaces c (remove_declarations c (find_reachable c s1')))))"
    by (auto simp: HandleTranslationUnit_def Let_def split: sum.splits)
  have e1: "events ?s1 = events s @ [Ev_BuildNonImplicitDeclMap, Ev_DependenciesCollector]"
    by (simp add: collect_dependencies_def index_declarations_def split: prod.splits)
  have si: "srcInfo s' = srcInfo s1'"
    by (simp add: s' store_result_def apply_changes_def finalize_preprocessor_def
        merge_namespaces_def remove_declarations_def find_reachable_def split: prod.splits)
  have ev: "events s' = events s1' @ [Ev_BFS, Ev_OptimizerVisitor, Ev_MergeNamespacesVisitor,
              Ev_ppCallbacks_Finalize, Ev_applyChanges, Ev_getResult]"
    by (simp add: s' store_result_def apply_changes_def finalize_preprocessor_def
        merge_namespaces_def remove_declarations_def find_reachable_def split: prod.splits)
  show "srcInfo s' = srcInfo ?s1" using si force_parsing_Inr(3) [OF f] by simp
  then show "events s' = events s
           @ [Ev_BuildNonImplicitDeclMap, Ev_DependenciesCollector,
              Ev_setSuppressAllDiagnostics True]
           @ map Ev_LateTemplateParser (delayedParsedFunctions (srcInfo s'))
           @ [Ev_setSuppressAllDiagnostics (suppressAllDiagnostics (sema ?s1)),
              Ev_BFS, Ev_OptimizerVisitor, Ev_MergeNamespacesVisitor,
              Ev_ppCallbacks_Finalize, Ev_applyChanges, Ev_getResult]"
    using ev e1 force_parsing_Inr(2) [OF f] by simp
qed

subsection \<open>An example run\<close>

text \<open>
  The rewriter of the example keeps the list of declarations scheduled for removal and has a
  rewrite buffer for the main file once the list is not empty. The collector reports the
  graph with the cycle 2, 3 and the unused declaration 5, the root 2 and the delayed
  function 3.
\<close>

definition example_sema :: Sema where
  "example_sema =
     \<lparr>translationUnitDecl = example_tu, suppressAllDiagnostics = False,
      LateParsedTemplateMap = fmap_of_list [(3, 7)]\<rparr>"

definition example_uses :: "(decl, decl list) fmap" where
  "example_uses = fmap_of_list [(2, [3]), (3, [2]), (5, [2])]"

definition example_collaborators :: "decl list collaborators" where
  "example_collaborators =
     \<lparr>getCanonicalDecl = (\<lambda>d. d),
      makeKey = (\<lambda>d. d),
      DependenciesCollector = (\<lambda>sm si. (sm, si\<lparr>uses := example_uses,
                                   declsToKeep := [2], delayedParsedFunctions := [3]\<rparr>)),
      LateTemplateParser = (\<lambda>t sm. sm),
      OptimizerVisitor = (\<lambda>tu used rw. ({5}, 5 # rw)),
      MergeNamespacesVisitor = (\<lambda>tu removed rw. rw),
      ppCallbacks_Finalize = (\<lambda>rw. rw),
      applyChanges = (\<lambda>rw. rw),
      getRewriteBufferFor = (\<lambda>rw fid. if rw = [] then None else Some ''int main() {}'')\<rparr>"

text \<open>The same passes, with a pruner that schedules no edit.\<close>

definition idle_collaborators :: "decl list collaborators" where
  "idle_collaborators = example_collaborators\<lparr>OptimizerVisitor := (\<lambda>tu used rw. ({}, rw))\<rparr>"

definition example_sourceManager :: SourceManager where
  "example_sourceManager =
     \<lparr>mainFileID = 1, buffers = fmap_of_list [(1, ''void f() {} int main() {}'')]\<rparr>"

definition example_consumer :: "decl list consumer" where
  "example_consumer =
     \<lparr>sema = example_sema,
      srcInfo = \<lparr>uses = fmempty, declsToKeep = [], delayedParsedFunctions = [],
                 nonImplicitDecls = fmempty\<rparr>,
      smartRewriter = [], used = {}, removedDecls = {}, result = [], events = []\<rparr>"


definition example_final :: "decl list consumer" where
  "example_final =
     \<lparr>sema = example_sema,
      srcInfo = \<lparr>uses = example_uses,
                 declsToKeep = [2], delayedParsedFunctions = [3],
                 nonImplicitDecls = fmupd 5 5 (fmupd 3 3 (fmupd 2 2 (fmupd 100 100 fmempty)))\<rparr>,
      smartRewriter = [5], used = {2, 3}, removedDecls = {5},
      result = ''int main() {}'',
      events = [Ev_BuildNonImplicitDeclMap, Ev_DependenciesCollector,
                Ev_setSuppressAllDiagnostics True, Ev_LateTemplateParser 3,
                Ev_setSuppressAllDiagnostics False, Ev_BFS, Ev_OptimizerVisitor,
                Ev_MergeNamespacesVisitor, Ev_ppCallbacks_Finalize,
                Ev_applyChanges, Ev_getResult]\<rparr>"

lemma example_index:
  "BuildNonImplicitDeclMap (\<lambda>d. d) example_tu
      \<lparr>uses = fmempty, declsToKeep = [], delayedParsedFunctions = [], nonImplicitDecls = fmempty\<rparr>
   = \<lparr>uses = fmempty, declsToKeep = [], delayedParsedFunctions = [],
      nonImplicitDecls = fmupd 5 5 (fmupd 3 3 (fmupd 2 2 (fmupd 100 100 fmempty)))\<rparr>"
  by (simp add: BuildNonImplicitDeclMap_def TraverseDecl_example VisitDecl_def emplace_def)

lemma example_used:
  "find_used (\<lambda>d. d)
     \<lparr>uses = example_uses, declsToKeep = [2],
      delayedParsedFunctions = [3], nonImplicitDecls = m\<rparr> = ({2, 3}, [2, 3])"
  by (auto simp: find_used_def initial_queue_def uses_at_def insort_insert_key_def example_uses_def)

lemma example_run:
  "HandleTranslationUnit example_collaborators example_sourceManager example_consumer
     = Inr example_final"
  by (simp add: HandleTranslationUnit_def Let_def index_declarations_def
      collect_dependencies_def force_parsing_def force_delayed_parsing_def find_reachable_def
      remove_declarations_def merge_namespaces_def finalize_preprocessor_def apply_changes_def
      store_result_def getResult_def example_collaborators_def example_consumer_def
      example_sema_def example_sourceManager_def example_final_def example_index example_used)

lemma HandleTranslationUnit_dataflow:
  assumes "HandleTranslationUnit c sourceManager s = Inr s'"
  shows "used s' = fst (find_used (getCanonicalDecl c) (srcInfo s'))"
    and "removedDecls s' =
           fst (OptimizerVisitor c (translationUnitDecl (sema s')) (used s') (smartRewriter s))"
    and "smartRewriter s' =
           applyChanges c (ppCallbacks_Finalize c
             (MergeNamespacesVisitor c (translationUnitDecl (sema s')) (removedDecls s')
               (snd (OptimizerVisitor c (translationUnitDecl (sema s')) (used s')
                      (smartRewriter s)))))"
    and "result s' = getResult c sourceManager (smartRewriter s')"
proof -
  let ?s1 = "collect_dependencies c (index_declarations c s)"
  from assms obtain s1' where f: "force_parsing c ?s1 = Inr s1'"
    and s': "s' = store_result c sourceManager (apply_changes c (finalize_preprocessor c
               (merge_namespaces c (remove_declarations c (find_reachable c s1')))))"
    by (auto simp: HandleTranslationUnit_def Let_def split: sum.splits)
  have rw: "smartRewriter s1' = smartRewriter s"
    using force_parsing_Inr(4) [OF f]
    by (simp add: collect_dependencies_def index_declarations_def split: prod.splits)
  show "used s' = fst (find_used (getCanonicalDecl c) (srcInfo s'))"
    by (simp add: s' store_result_def apply_changes_def finalize_preprocessor_def
        merge_namespaces_def remove_declarations_def find_reachable_def split: prod.splits)
  show "removedDecls s' =
           fst (OptimizerVisitor c (translationUnitDecl (sema s')) (used s') (smartRewriter s))"
    by (simp add: s' rw [symmetric] store_result_def apply_changes_def finalize_preprocessor_def
        merge_namespaces_def remove_declarations_def find_reachable_def split: prod.splits)
  show "smartRewriter s' =
           applyChanges c (ppCallbacks_Finalize c
             (MergeNamespacesVisitor c (translationUnitDecl (sema s')) (removedDecls s')
               (snd (OptimizerVisitor c (translationUnitDecl (sema s')) (used s')
                      (smartRewriter s)))))"
    by (simp add: s' rw [symmetric] store_result_def apply_changes_def finalize_preprocessor_def
        merge_namespaces_def remove_declarations_def find_reachable_def split: prod.splits)
  show "result s' = getResult c sourceManager (smartRewriter s')"
    by (simp add: s' store_result_def)
qed

lemma HandleTranslationUnit_forced:
  assumes "HandleTranslationUnit c sourceManager s = Inr s'"
  shows "\<exists>s1. force_parsing c (collect_dependencies c (index_declarations c s)) = Inr s1 \<and>
              sema s' = sema s1"
proof -
  from assms obtain s1 where f: "force_parsing c (collect_dependencies c (index_declarations c s)) = Inr s1"
    and s': "s' = store_result c sourceManager (apply_changes c (finalize_preprocessor c
               (merge_namespaces c (remove_declarations c (find_reachable c s1)))))"
    by (auto simp: HandleTranslationUnit_def Let_def split: sum.splits)
  have "sema s' = sema s1"
    by (simp add: s' store_result_def apply_changes_def finalize_preprocessor_def
        merge_namespaces_def remove_declarations_def find_reachable_def split: prod.splits)
  with f show ?thesis by blast
qed

subsection \<open>Forced parsing precedes the reachability computation\<close>

text \<open>
  Claim C7. Every function recorded in \<^verbatim>\<open>srcInfo.delayedParsedFunctions\<close> has its
  late-parsed template body force-parsed during the dependency-collection phase, and this
  is complete before the reachability computation begins.

  Stated on the model, for a call that returns and a function \<open>f\<close> of the list that the
  collector left:
  \<^item> the front end's state at the end of the call is the state that the collector left,
    with suppression switched on, after \<^verbatim>\<open>LateTemplateParser\<close> has been applied for
    every function of the list in order, each time to the entry of the map for that
    function, and with the saved flag written back;
  \<^item> at the turn of \<open>f\<close> the map has an entry for it, so the parser is applied to it;
  \<^item> the call for \<open>f\<close> comes after the collector's traversal and before the worklist
    loop;
  \<^item> the pruner, which runs after the loop, is handed the tree of that state.
\<close>

theorem delayed_functions_parsed_before_reachability:
  assumes "HandleTranslationUnit c sourceManager s = Inr s'"
    and "f \<in> set (delayedParsedFunctions (srcInfo s'))"
  shows "srcInfo s' = srcInfo (collect_dependencies c (index_declarations c s)) \<and>
         sema s' =
           (fold (late_parse_step (LateTemplateParser c)) (delayedParsedFunctions (srcInfo s'))
              ((sema (collect_dependencies c (index_declarations c s)))
                 \<lparr>suppressAllDiagnostics := True\<rparr>))
           \<lparr>suppressAllDiagnostics :=
              suppressAllDiagnostics (sema (collect_dependencies c (index_declarations c s)))\<rparr> \<and>
         (\<exists>xs ys t. delayedParsedFunctions (srcInfo s') = xs @ f # ys \<and>
            fmlookup (LateParsedTemplateMap
              (fold (late_parse_step (LateTemplateParser c)) xs
                 ((sema (collect_dependencies c (index_declarations c s)))
                    \<lparr>suppressAllDiagnostics := True\<rparr>))) f = Some t) \<and>
         (\<exists>pre post. events s' = events s @ pre @ Ev_LateTemplateParser f # post \<and>
            Ev_DependenciesCollector \<in> set pre \<and> Ev_BFS \<notin> set pre \<and> Ev_BFS \<in> set post) \<and>
         removedDecls s' =
           fst (OptimizerVisitor c (translationUnitDecl (sema s')) (used s') (smartRewriter s))"
proof (intro conjI)
  let ?s1 = "collect_dependencies c (index_declarations c s)"
  show si: "srcInfo s' = srcInfo ?s1"
    by (rule HandleTranslationUnit_events(2) [OF assms(1)])
  from HandleTranslationUnit_forced [OF assms(1)] obtain s2
    where f2: "force_parsing c ?s1 = Inr s2" and sm: "sema s' = sema s2" by blast
  show "sema s' =
           (fold (late_parse_step (LateTemplateParser c)) (delayedParsedFunctions (srcInfo s'))
              ((sema ?s1)\<lparr>suppressAllDiagnostics := True\<rparr>))
           \<lparr>suppressAllDiagnostics := suppressAllDiagnostics (sema ?s1)\<rparr>"
    using force_parsing_state(1) [OF f2] sm si by simp
  from assms(2) obtain xs ys where fs: "delayedParsedFunctions (srcInfo s') = xs @ f # ys"
    by (auto dest: split_list)
  then have "delayedParsedFunctions (srcInfo ?s1) = xs @ f # ys" using si by simp
  from force_parsing_state(2) [OF f2 this] fs
  show "\<exists>xs ys t. delayedParsedFunctions (srcInfo s') = xs @ f # ys \<and>
            fmlookup (LateParsedTemplateMap
              (fold (late_parse_step (LateTemplateParser c)) xs
                 ((sema ?s1)\<lparr>suppressAllDiagnostics := True\<rparr>))) f = Some t"
    by blast
  let ?b = "suppressAllDiagnostics (sema ?s1)"
  let ?pre = "[Ev_BuildNonImplicitDeclMap, Ev_DependenciesCollector,
               Ev_setSuppressAllDiagnostics True] @ map Ev_LateTemplateParser xs"
  let ?post = "map Ev_LateTemplateParser ys @ [Ev_setSuppressAllDiagnostics ?b,
              Ev_BFS, Ev_OptimizerVisitor, Ev_MergeNamespacesVisitor,
              Ev_ppCallbacks_Finalize, Ev_applyChanges, Ev_getResult]"
  have "events s' = events s @ ?pre @ Ev_LateTemplateParser f # ?post"
    using HandleTranslationUnit_events(1) [OF assms(1)] by (simp add: fs)
  moreover have "Ev_DependenciesCollector \<in> set ?pre" by simp
  moreover have "Ev_BFS \<notin> set ?pre" by auto
  moreover have "Ev_BFS \<in> set ?post" by simp
  ultimately show "\<exists>pre post. events s' = events s @ pre @ Ev_LateTemplateParser f # post \<and>
            Ev_DependenciesCollector \<in> set pre \<and> Ev_BFS \<notin> set pre \<and> Ev_BFS \<in> set post"
    by blast
  show "removedDecls s' =
           fst (OptimizerVisitor c (translationUnitDecl (sema s')) (used s') (smartRewriter s))"
    by (rule HandleTranslationUnit_dataflow(2) [OF assms(1)])
qed

text \<open>
  A run whose parser adds the parsed body to the tree, as a node with the address of the
  late-parsed template, and whose pruner removes what is in the tree and not used.
\<close>

definition parsing_collaborators :: "decl list collaborators" where
  "parsing_collaborators =
     example_collaborators
       \<lparr>LateTemplateParser :=
          (\<lambda>t sm. sm\<lparr>translationUnitDecl :=
                       DeclNode (declOf (translationUnitDecl sm)) False
                         (decls (translationUnitDecl sm) @ [DeclNode t False [] []]) []\<rparr>),
        OptimizerVisitor :=
          (\<lambda>tu used rw. (set (TraverseDecl BuildNonImplicitDeclMap_options tu) - used - {100},
                          rw))\<rparr>"

definition example_parsed_tu :: DeclNode where
  "example_parsed_tu =
     DeclNode 100 False
       [DeclNode 2 False [] [],
        DeclNode 3 False [DeclNode 31 True [] []] [DeclNode 30 False [] []],
        DeclNode 4 True [DeclNode 41 False [] []] [],
        DeclNode 5 False [] [],
        DeclNode 7 False [] []] []"

definition parsed_final :: "decl list consumer" where
  "parsed_final =
     example_final\<lparr>sema := example_sema\<lparr>translationUnitDecl := example_parsed_tu\<rparr>,
                    smartRewriter := [], removedDecls := {5, 7},
                    result := ''void f() {} int main() {}''\<rparr>"

lemma parsing_run:
  "HandleTranslationUnit parsing_collaborators example_sourceManager example_consumer
     = Inr parsed_final"
  by (auto simp add: HandleTranslationUnit_def Let_def index_declarations_def
      collect_dependencies_def force_parsing_def force_delayed_parsing_def find_reachable_def
      remove_declarations_def merge_namespaces_def finalize_preprocessor_def apply_changes_def
      store_result_def getResult_def example_collaborators_def parsing_collaborators_def
      example_consumer_def example_sema_def example_sourceManager_def example_final_def
      parsed_final_def example_parsed_tu_def example_tu_def BuildNonImplicitDeclMap_options_def
      example_index [unfolded example_tu_def] example_used)

theorem delayed_functions_parsed_before_reachability_witness:
  "HandleTranslationUnit parsing_collaborators example_sourceManager example_consumer
     = Inr parsed_final \<and>
   3 \<in> set (delayedParsedFunctions (srcInfo parsed_final)) \<and>
   translationUnitDecl (sema parsed_final) = example_parsed_tu \<and>
   removedDecls parsed_final = {5, 7} \<and>
   (\<exists>pre post. events parsed_final = events example_consumer @ pre @ Ev_LateTemplateParser 3 # post \<and>
      Ev_DependenciesCollector \<in> set pre \<and> Ev_BFS \<notin> set pre \<and> Ev_BFS \<in> set post)"
proof -
  have m: "3 \<in> set (delayedParsedFunctions (srcInfo parsed_final))"
    by (simp add: parsed_final_def example_final_def)
  have "translationUnitDecl (sema parsed_final) = example_parsed_tu"
    and "removedDecls parsed_final = {5, 7}"
    by (simp_all add: parsed_final_def)
  then show ?thesis
    using parsing_run m delayed_functions_parsed_before_reachability [OF parsing_run m]
    by simp
qed

subsection \<open>The order of the phases\<close>

text \<open>
  Claim C8. Within one run the phases execute in a fixed sequence, each completing before the
  next begins: declaration indexing, dependency collection, reachability, lexical pruning,
  namespace merging, finalization of the preprocessor callbacks, then one application of all
  accumulated edits. In particular \<^verbatim>\<open>ppCallbacks.Finalize\<close> runs after the pruner and
  the namespace visitor have scheduled their edits and before the rewriter applies them.

  Stated on the model: a call that returns has made exactly the calls below, in this order;
  the pruner received the used set of the worklist loop, the namespace visitor received the
  pruner's removed set, and the rewriter went through the pruner, the namespace visitor,
  \<^verbatim>\<open>Finalize\<close> and \<^verbatim>\<open>applyChanges\<close> in this order before the result was read.
\<close>

theorem pipeline_phases_in_order:
  assumes "HandleTranslationUnit c sourceManager s = Inr s'"
  shows "events s' = events s
           @ [Ev_BuildNonImplicitDeclMap, Ev_DependenciesCollector,
              Ev_setSuppressAllDiagnostics True]
           @ map Ev_LateTemplateParser (delayedParsedFunctions (srcInfo s'))
           @ [Ev_setSuppressAllDiagnostics
                (suppressAllDiagnostics (sema (collect_dependencies c (index_declarations c s)))),
              Ev_BFS, Ev_OptimizerVisitor, Ev_MergeNamespacesVisitor,
              Ev_ppCallbacks_Finalize, Ev_applyChanges, Ev_getResult] \<and>
         used s' = fst (find_used (getCanonicalDecl c) (srcInfo s')) \<and>
         removedDecls s' =
           fst (OptimizerVisitor c (translationUnitDecl (sema s')) (used s') (smartRewriter s)) \<and>
         smartRewriter s' =
           applyChanges c (ppCallbacks_Finalize c
             (MergeNamespacesVisitor c (translationUnitDecl (sema s')) (removedDecls s')
               (snd (OptimizerVisitor c (translationUnitDecl (sema s')) (used s')
                      (smartRewriter s))))) \<and>
         result s' = getResult c sourceManager (smartRewriter s')"
  using HandleTranslationUnit_events(1) [OF assms] HandleTranslationUnit_dataflow [OF assms]
  by simp

theorem pipeline_phases_in_order_witness:
  "HandleTranslationUnit example_collaborators example_sourceManager example_consumer
     = Inr example_final \<and>
   events example_final =
     [Ev_BuildNonImplicitDeclMap, Ev_DependenciesCollector,
      Ev_setSuppressAllDiagnostics True, Ev_LateTemplateParser 3,
      Ev_setSuppressAllDiagnostics False, Ev_BFS, Ev_OptimizerVisitor,
      Ev_MergeNamespacesVisitor, Ev_ppCallbacks_Finalize, Ev_applyChanges, Ev_getResult]"
  using example_run pipeline_phases_in_order [OF example_run]
  by (simp add: example_final_def)

subsection \<open>The suppression flag around the forced parsing\<close>

text \<open>
  Claim C10. Forcing the delayed parsing leaves the flag that suppresses all diagnostics
  unchanged: the value is saved, suppression is switched on for the loop that calls the late
  template parser, and the saved value is restored afterwards, so the flag after the forcing
  step equals the flag before it.

  Stated on the model, for any parser, which may even change the flag itself: when the step
  returns, the flag has the value it had before, and the step has set the flag to true, called
  the parser for each delayed function, and set the flag to the saved value, in this order.
\<close>

theorem suppress_flag_restored:
  assumes "force_parsing c s = Inr s'"
  shows "suppressAllDiagnostics (sema s') = suppressAllDiagnostics (sema s) \<and>
         events s' = events s @ [Ev_setSuppressAllDiagnostics True]
           @ map Ev_LateTemplateParser (delayedParsedFunctions (srcInfo s))
           @ [Ev_setSuppressAllDiagnostics (suppressAllDiagnostics (sema s))]"
  using force_parsing_Inr(1,2) [OF assms] by simp

definition example_collected :: "decl list consumer" where
  "example_collected =
     example_consumer\<lparr>srcInfo := \<lparr>uses = example_uses, declsToKeep = [2],
                          delayedParsedFunctions = [3], nonImplicitDecls = fmempty\<rparr>\<rparr>"

definition example_forced :: "decl list consumer" where
  "example_forced =
     example_collected\<lparr>events := [Ev_setSuppressAllDiagnostics True, Ev_LateTemplateParser 3,
                                  Ev_setSuppressAllDiagnostics False]\<rparr>"

lemma example_force_parsing:
  "force_parsing example_collaborators example_collected = Inr example_forced"
  by (simp add: force_parsing_def force_delayed_parsing_def example_collaborators_def
      example_collected_def example_forced_def example_consumer_def example_sema_def)

theorem suppress_flag_restored_witness:
  "force_parsing example_collaborators example_collected = Inr example_forced \<and>
   suppressAllDiagnostics (sema example_forced) = suppressAllDiagnostics (sema example_collected) \<and>
   events example_forced = [Ev_setSuppressAllDiagnostics True, Ev_LateTemplateParser 3,
                            Ev_setSuppressAllDiagnostics False]"
  using example_force_parsing suppress_flag_restored [OF example_force_parsing]
  by (simp add: example_collected_def example_consumer_def example_sema_def)

text \<open>With a delayed function that has no entry in the map, the step dereferences null.\<close>

lemma force_parsing_missing_entry:
  "force_parsing example_collaborators
     (example_collected\<lparr>srcInfo := (srcInfo example_collected)\<lparr>delayedParsedFunctions := [3, 5]\<rparr>\<rparr>)
   = Inl (NullLateParsedTemplate 5)"
  by (simp add: force_parsing_def force_delayed_parsing_def example_collaborators_def
      example_collected_def example_consumer_def example_sema_def)

subsection \<open>The result of a run without edits\<close>

text \<open>
  Claim C5. If no edits were scheduled against the main file, so that the rewriter has no
  rewrite buffer for it, and the main-file buffer is valid, the result produced by the run is
  the original text of the input file, byte for byte.

  Stated on the model: in a call that returns with no rewrite buffer for the main file and a
  valid buffer holding \<open>text\<close>, \<^verbatim>\<open>getResult\<close> yields \<open>text\<close>, the consumer stores
  it as the result, and \<^verbatim>\<open>doOptimize\<close> returns it when the tool has returned zero.
\<close>

theorem unedited_main_file_returned_verbatim:
  assumes "HandleTranslationUnit c sourceManager s = Inr s'"
    and "getRewriteBufferFor c (smartRewriter s') (mainFileID sourceManager) = None"
    and "fmlookup (buffers sourceManager) (mainFileID sourceManager) = Some text"
  shows "getResult c sourceManager (smartRewriter s') = text \<and> result s' = text \<and>
         doOptimize \<lparr>diagnostics = ds, ret = 0, consumer_result = result s'\<rparr> = Inr text"
proof -
  have g: "getResult c sourceManager (smartRewriter s') = text"
    using assms(2,3) by (simp add: getResult_def)
  moreover have "result s' = getResult c sourceManager (smartRewriter s')"
    by (rule HandleTranslationUnit_dataflow(4) [OF assms(1)])
  ultimately show ?thesis by (simp add: doOptimize_def)
qed

definition idle_final :: "decl list consumer" where
  "idle_final =
     example_final\<lparr>smartRewriter := [], removedDecls := {},
                   result := ''void f() {} int main() {}''\<rparr>"

lemma idle_run:
  "HandleTranslationUnit idle_collaborators example_sourceManager example_consumer
     = Inr idle_final"
  by (simp add: HandleTranslationUnit_def Let_def index_declarations_def
      collect_dependencies_def force_parsing_def force_delayed_parsing_def find_reachable_def
      remove_declarations_def merge_namespaces_def finalize_preprocessor_def apply_changes_def
      store_result_def getResult_def example_collaborators_def idle_collaborators_def
      example_consumer_def example_sema_def example_sourceManager_def example_final_def
      idle_final_def example_index example_used)

theorem unedited_main_file_returned_verbatim_witness:
  "HandleTranslationUnit idle_collaborators example_sourceManager example_consumer = Inr idle_final \<and>
   getRewriteBufferFor idle_collaborators (smartRewriter idle_final)
     (mainFileID example_sourceManager) = None \<and>
   fmlookup (buffers example_sourceManager) (mainFileID example_sourceManager)
     = Some ''void f() {} int main() {}'' \<and>
   result idle_final = ''void f() {} int main() {}'' \<and>
   doOptimize \<lparr>diagnostics = [], ret = 0, consumer_result = result idle_final\<rparr>
     = Inr ''void f() {} int main() {}''"
proof -
  have n: "getRewriteBufferFor idle_collaborators (smartRewriter idle_final)
     (mainFileID example_sourceManager) = None"
    by (simp add: idle_collaborators_def example_collaborators_def idle_final_def)
  have b: "fmlookup (buffers example_sourceManager) (mainFileID example_sourceManager)
     = Some ''void f() {} int main() {}''"
    by (simp add: example_sourceManager_def)
  show ?thesis
    using idle_run n b unedited_main_file_returned_verbatim [OF idle_run n b, of "[]"]
    by blast
qed

subsection \<open>The result when the main-file buffer cannot be obtained\<close>






subsection \<open>The outcome of doOptimize\<close>

definition render :: "Diagnostic \<Rightarrow> string" where
  "render Info = (if hasSourceManager Info then location Info @ '': '' else []) @ formatted Info"

lemma errors_fold_HandleDiagnostic:
  "errors (fold (\<lambda>(DiagLevel, Info). HandleDiagnostic DiagLevel Info) ds ec) =
     errors ec @ map (render \<circ> snd) (filter (\<lambda>(l, i). level_value Error \<le> level_value l) ds)"
proof (induction ds arbitrary: ec)
  case Nil
  show ?case by simp
next
  case (Cons d ds)
  obtain l i where d: "d = (l, i)" by (cases d)
  have "errors (HandleDiagnostic l i ec) =
          errors ec @ (if level_value Error \<le> level_value l then [render i] else [])"
    by (simp add: HandleDiagnostic_def count_diagnostic_def render_def Let_def)
  then show ?case by (simp add: Cons.IH d)
qed

lemma collected_errors_eq:
  "collected_errors run =
     map (render \<circ> snd) (filter (\<lambda>(l, i). level_value Error \<le> level_value l) (diagnostics run))"
  by (simp add: collected_errors_def errors_fold_HandleDiagnostic new_ErrorCollector_def)

lemma fold_append_lines:
  "fold (\<lambda>error message. message @ error @ [CHR 0x0A]) errs m =
     m @ concat (map (\<lambda>e. e @ [CHR 0x0A]) errs)"
  by (induction errs arbitrary: m) simp_all

lemma failure_message_eq:
  "failure_message errs =
     ''Inliner failed.'' @
     (if errs = [] then []
      else '' The following compilation errors were detected: '' @
           concat (map (\<lambda>e. e @ [CHR 0x0A]) errs))"
  by (simp add: failure_message_def fold_append_lines)

lemma c_str_no_zero_byte: "CHR 0x00 \<notin> set s \<Longrightarrow> c_str s = s"
  by (auto simp: c_str_def)

lemma doOptimize_raises_iff: "(\<exists>e. doOptimize run = Inl e) \<longleftrightarrow> ret run \<noteq> 0"
  by (simp add: doOptimize_def)

lemma doOptimize_no_text_on_failure: "ret run \<noteq> 0 \<Longrightarrow> doOptimize run \<noteq> Inr text"
  by (simp add: doOptimize_def)

lemma doOptimize_message_without_zero_bytes:
  assumes "ret run \<noteq> 0" and "\<And>e. e \<in> set (collected_errors run) \<Longrightarrow> CHR 0x00 \<notin> set e"
  shows "doOptimize run = Inl (runtime_error (failure_message (collected_errors run)))"
proof -
  have "CHR 0x00 \<notin> set (failure_message (collected_errors run))"
    using assms(2) by (auto simp: failure_message_eq)
  then show ?thesis using assms(1) by (simp add: doOptimize_def c_str_no_zero_byte)
qed

text \<open>
  A failed run with two errors, the first of which has a zero byte in its text.
\<close>

definition zero_byte_run :: ToolRun where
  "zero_byte_run =
     \<lparr>diagnostics =
        [(Error, \<lparr>hasSourceManager = True, location = ''x.cpp:1:2'',
                  formatted = [CHR ''a'', CHR 0x00, CHR ''b'']\<rparr>),
         (Warning, \<lparr>hasSourceManager = False, location = [], formatted = ''w''\<rparr>),
         (Fatal, \<lparr>hasSourceManager = False, location = [], formatted = ''c''\<rparr>)],
      ret = 1, consumer_result = []\<rparr>"

text \<open>
  Both errors are collected, and the message of the exception ends before the zero byte: the
  rest of the first error and the whole second error are not in it.
\<close>

theorem doOptimize_message_cut_at_zero_byte:
  "collected_errors zero_byte_run = [''x.cpp:1:2: '' @ [CHR ''a'', CHR 0x00, CHR ''b''], ''c''] \<and>
   doOptimize zero_byte_run =
     Inl (runtime_error
           ''Inliner failed. The following compilation errors were detected: x.cpp:1:2: a'')"
  by (simp add: doOptimize_def collected_errors_def HandleDiagnostic_def count_diagnostic_def
      new_ErrorCollector_def failure_message_def c_str_def zero_byte_run_def Let_def)

lemma failure_message_contains:
  assumes "e \<in> set errs"
  shows "\<exists>pre post. failure_message errs = pre @ e @ [CHR 0x0A] @ post"
proof -
  from assms obtain xs ys where errs: "errs = xs @ e # ys" by (auto dest: split_list)
  have "failure_message errs =
      (''Inliner failed. The following compilation errors were detected: '' @
        concat (map (\<lambda>e. e @ [CHR 0x0A]) xs)) @ e @ [CHR 0x0A] @
        concat (map (\<lambda>e. e @ [CHR 0x0A]) ys)"
    by (simp add: failure_message_eq errs)
  then show ?thesis by blast
qed

text \<open>
  Claim C4, as the code has it. For every run, \<^verbatim>\<open>doOptimize\<close> raises exactly when
  the run of the tool returns nonzero, and a failed run returns no text; the errors that
  the diagnostic consumer collected are the diagnostics of level error or fatal, in order,
  each as its location, a colon and a space (when it has a source manager) and its text.
  When the run fails and no collected error contains a zero byte, the exception carries one
  message that aggregates every collected error: the text \<^verbatim>\<open>Inliner failed.\<close> and,
  when errors were collected, the heading and each collected error followed by a newline.
\<close>

theorem doOptimize_failure_message:
  "((\<exists>e. doOptimize run = Inl e) \<longleftrightarrow> ret run \<noteq> 0) \<and>
   (ret run \<noteq> 0 \<longrightarrow> (\<forall>text. doOptimize run \<noteq> Inr text)) \<and>
   collected_errors run =
     map (\<lambda>(DiagLevel, Info).
            (if hasSourceManager Info then location Info @ '': '' else []) @ formatted Info)
       (filter (\<lambda>(DiagLevel, Info). level_value Error \<le> level_value DiagLevel)
          (diagnostics run)) \<and>
   (ret run \<noteq> 0 \<and> (\<forall>e \<in> set (collected_errors run). CHR 0x00 \<notin> set e) \<longrightarrow>
      doOptimize run =
        Inl (runtime_error
              (''Inliner failed.'' @
               (if collected_errors run = [] then []
                else '' The following compilation errors were detected: '' @
                     concat (map (\<lambda>e. e @ [CHR 0x0A]) (collected_errors run))))))"
proof (intro conjI)
  show "(\<exists>e. doOptimize run = Inl e) \<longleftrightarrow> ret run \<noteq> 0"
    by (rule doOptimize_raises_iff)
  show "ret run \<noteq> 0 \<longrightarrow> (\<forall>text. doOptimize run \<noteq> Inr text)"
    by (simp add: doOptimize_no_text_on_failure)
  show "collected_errors run =
     map (\<lambda>(DiagLevel, Info).
            (if hasSourceManager Info then location Info @ '': '' else []) @ formatted Info)
       (filter (\<lambda>(DiagLevel, Info). level_value Error \<le> level_value DiagLevel)
          (diagnostics run))"
    by (simp add: collected_errors_eq render_def comp_def case_prod_beta)
  show "ret run \<noteq> 0 \<and> (\<forall>e \<in> set (collected_errors run). CHR 0x00 \<notin> set e) \<longrightarrow>
      doOptimize run =
        Inl (runtime_error
              (''Inliner failed.'' @
               (if collected_errors run = [] then []
                else '' The following compilation errors were detected: '' @
                     concat (map (\<lambda>e. e @ [CHR 0x0A]) (collected_errors run)))))"
  proof
    assume h: "ret run \<noteq> 0 \<and> (\<forall>e \<in> set (collected_errors run). CHR 0x00 \<notin> set e)"
    then have "doOptimize run = Inl (runtime_error (failure_message (collected_errors run)))"
      by (intro doOptimize_message_without_zero_bytes) auto
    then show "doOptimize run =
        Inl (runtime_error
              (''Inliner failed.'' @
               (if collected_errors run = [] then []
                else '' The following compilation errors were detected: '' @
                     concat (map (\<lambda>e. e @ [CHR 0x0A]) (collected_errors run)))))"
      by (simp only: failure_message_eq)
  qed
qed

definition failed_run :: ToolRun where
  "failed_run =
     \<lparr>diagnostics =
        [(Error, \<lparr>hasSourceManager = True, location = ''x.cpp:1:2'', formatted = ''ab''\<rparr>),
         (Warning, \<lparr>hasSourceManager = False, location = [], formatted = ''w''\<rparr>),
         (Fatal, \<lparr>hasSourceManager = False, location = [], formatted = ''c''\<rparr>)],
      ret = 1, consumer_result = ''int main() {}''\<rparr>"

lemma failed_run_errors: "collected_errors failed_run = [''x.cpp:1:2: ab'', ''c'']"
  by (simp add: collected_errors_def HandleDiagnostic_def count_diagnostic_def
      new_ErrorCollector_def failed_run_def Let_def)

theorem doOptimize_failure_message_witness:
  "collected_errors failed_run = [''x.cpp:1:2: ab'', ''c''] \<and>
   CHR 0x00 \<notin> set ''x.cpp:1:2: ab'' \<and> CHR 0x00 \<notin> set ''c'' \<and> ret failed_run = 1 \<and>
   doOptimize failed_run =
     Inl (runtime_error
       (''Inliner failed. The following compilation errors were detected: x.cpp:1:2: ab''
        @ [CHR 0x0A] @ ''c'' @ [CHR 0x0A]))"
proof -
  have z: "\<forall>e \<in> set (collected_errors failed_run). CHR 0x00 \<notin> set e"
    by (simp add: failed_run_errors)
  have r: "ret failed_run = 1" by (simp add: failed_run_def)
  then have nz: "ret failed_run \<noteq> 0" by simp
  from doOptimize_failure_message [of failed_run] nz z
  have "doOptimize failed_run =
        Inl (runtime_error
              (''Inliner failed.'' @
               (if collected_errors failed_run = [] then []
                else '' The following compilation errors were detected: '' @
                     concat (map (\<lambda>e. e @ [CHR 0x0A]) (collected_errors failed_run)))))"
    by blast
  then show ?thesis
    using r by (simp add: failed_run_errors)
qed

end
